theory Spec2Isabelle
  imports Main "HOL-Library.Word"
begin

section \<open>The HDS stream filter (modules/stream\_filter/hds/hds.c)\<close>

text \<open>
  Machine integers are words of the width the C source declares: \<open>uint8_t\<close> is
  \<open>8 word\<close>, \<open>uint32_t\<close> and \<open>unsigned\<close> are \<open>32 word\<close>, \<open>uint64_t\<close>, \<open>int64_t\<close>
  and pointers are \<open>64 word\<close> (an LP64 target). Arithmetic on words wraps as the C
  arithmetic does; a widening conversion is \<open>ucast\<close>.

  Whatever the C program does beyond computing a value is a \<open>fault\<close>: a read outside
  the object a pointer points into, a read through the null pointer, a division by
  zero, the use of a pointer to a freed chunk. A function that can fault returns \<open>fault + 'a\<close>.
\<close>

type_synonym byte = "8 word"

datatype fault = ReadOutside | NullDeref | DivByZero | UseAfterFree

subsection \<open>Data model\<close>

text \<open>A block of memory returned by \<open>malloc\<close>: its address and its contents.\<close>

record buffer =
  addr :: "64 word"
  bytes :: "byte list"

text \<open>
  \<open>chunk_t\<close>. The \<open>next\<close> link is the position in the chain (a list of chunks, the
  head first). \<open>data\<close> is \<open>None\<close> for the null pointer; \<open>mdat_data\<close> is an address,
  0 for the null pointer.
\<close>

record chunk =
  duration :: "64 word"
  timestamp :: "64 word"
  frag_num :: "32 word"
  seg_num :: "32 word"
  frun_entry :: "32 word"
  data_len :: "32 word"
  mdat_pos :: "32 word"
  mdat_len :: "32 word"
  mdat_data :: "64 word"
  data :: "buffer option"
  failed :: bool
  eof :: bool

record segment_run =
  first_segment :: "32 word"
  fragments_per_segment :: "32 word"

record fragment_run =
  fragment_number_start :: "32 word"
  fragment_duration :: "32 word"
  fragment_timestamp :: "64 word"
  discont :: "8 word"

text \<open>
  A cursor into the chain: the null pointer, the chunk at a position counted from
  \<open>chunks_head\<close>, or a pointer to a chunk that has been freed.
\<close>

datatype cursor = Null | At nat | Dangling

text \<open>
  \<open>hds_stream_t\<close>. \<open>chunks\<close> is the chain that starts at \<open>chunks_head\<close>. The three
  fixed-size arrays are total functions from the index; the code never writes beyond
  their bounds (the server and fragment-run counts are checked against the bound before
  each write, the segment-run count is a \<open>uint8_t\<close> indexing 256 entries).
  The locks, the condition variable and the two URLs play no part in what follows.
\<close>

record hds_stream =
  chunks :: "chunk list"
  chunks_livereadpos :: cursor
  chunks_downloadpos :: cursor
  quality_segment_modifier :: "byte list option"
  download_leadtime :: "64 word"
  afrt_timescale :: "32 word"
  timescale :: "32 word"
  live_current_time :: "64 word"
  movie_id :: "byte list option"
  server_entries :: "nat \<Rightarrow> byte list"
  server_entry_count :: "8 word"
  segment_runs :: "nat \<Rightarrow> segment_run"
  segment_run_count :: "8 word"
  fragment_runs :: "nat \<Rightarrow> fragment_run"
  fragment_run_count :: "32 word"

text \<open>\<open>stream_sys_t\<close>, without the thread handles and the base URL.\<close>

record stream_sys =
  chunk_count :: "64 word"
  hds_streams :: "hds_stream list"
  flv_header_bytes_sent :: "32 word"
  duration_seconds :: "64 word"
  live :: bool
  closed :: bool

definition MAX_HDS_SERVERS :: nat where "MAX_HDS_SERVERS = 10"
definition MAX_HDS_SEGMENT_RUNS :: nat where "MAX_HDS_SEGMENT_RUNS = 256"
definition MAX_HDS_FRAGMENT_RUNS :: nat where "MAX_HDS_FRAGMENT_RUNS = 10000"
definition MAX_REQUEST_SIZE :: int where "MAX_REQUEST_SIZE = 50 * 1024 * 1024"

text \<open>\<open>chunk_new\<close>: \<open>calloc\<close> gives a chunk whose fields are all zero.\<close>

definition chunk_new :: chunk where
  "chunk_new = \<lparr> duration = 0, timestamp = 0, frag_num = 0, seg_num = 0, frun_entry = 0,
     data_len = 0, mdat_pos = 0, mdat_len = 0, mdat_data = 0, data = None,
     failed = False, eof = False \<rparr>"

subsection \<open>The fragment indexer: \<open>generate_new_chunk\<close>\<close>

text \<open>
  The \<open>for\<close> loop over the fragment runs, from entry \<open>e\<close>. The loop index never
  exceeds \<open>fragment_run_count\<close>, so it is a natural number. The result is \<open>None\<close>
  where the C code returns \<open>NULL\<close> from inside the loop, and otherwise the chunk and
  the value of \<open>frun_entry\<close> when the loop is left (by \<open>break\<close>, or because its
  condition fails).
\<close>

function frun_walk :: "hds_stream \<Rightarrow> chunk \<Rightarrow> nat \<Rightarrow> (chunk \<times> nat) option" where
  "frun_walk s c e =
    (if e < unat (fragment_run_count s) then
       (if fragment_duration (fragment_runs s e) = 0 then
          (if e = unat (fragment_run_count s) - 1 then None
           else Some (c\<lparr> frag_num := fragment_number_start (fragment_runs s (e + 1)),
                          duration := ucast (fragment_duration (fragment_runs s (e + 1))),
                          timestamp := fragment_timestamp (fragment_runs s (e + 1)) \<rparr>,
                      e + 1))
        else
          (let c1 =
             (if frag_num c = 0 \<and>
                 (e = unat (fragment_run_count s) - 1 \<or>
                  (fragment_timestamp (fragment_runs s e) \<le> timestamp c \<and>
                   timestamp c < fragment_timestamp (fragment_runs s (e + 1))))
              then c\<lparr> frag_num :=
                         ucast ((ucast (fragment_number_start (fragment_runs s e)) :: 64 word) +
                                (timestamp c - fragment_timestamp (fragment_runs s e)) div
                                  ucast (fragment_duration (fragment_runs s e))),
                       duration := ucast (fragment_duration (fragment_runs s e)) \<rparr>
              else c)
           in
             if fragment_number_start (fragment_runs s e) \<le> frag_num c1 \<and>
                (e = unat (fragment_run_count s) - 1 \<or>
                 frag_num c1 < fragment_number_start (fragment_runs s (e + 1)))
             then Some (c1\<lparr> duration := ucast (fragment_duration (fragment_runs s e)),
                             timestamp := fragment_timestamp (fragment_runs s e) +
                               ucast (fragment_duration (fragment_runs s e)) *
                               ucast (frag_num c1 - fragment_number_start (fragment_runs s e)) \<rparr>,
                        e)
             else frun_walk s c1 (e + 1)))
     else Some (c, e))"
  by pat_completeness auto
termination
  by (relation "measure (\<lambda>(s, c, e). unat (fragment_run_count s) - e)") auto

declare frun_walk.simps [simp del]

text \<open>
  The \<open>for\<close> loop over the segment runs, from entry \<open>i\<close>, with the current values of
  \<open>segment\<close> and \<open>fragments_accum\<close>. The division by \<open>fragments_per_segment\<close> is a
  fault when that field is zero.
\<close>

function srun_walk ::
  "hds_stream \<Rightarrow> chunk \<Rightarrow> nat \<Rightarrow> 32 word \<Rightarrow> 64 word \<Rightarrow> fault + 32 word" where
  "srun_walk s c i segment fragments_accum =
    (if i < unat (segment_run_count s) then
       (if fragments_per_segment (segment_runs s i) = 0 then Inl DivByZero
        else
          (let segment' = (ucast ((ucast (first_segment (segment_runs s i)) :: 64 word) +
                             (ucast (frag_num c) - fragments_accum) div
                               ucast (fragments_per_segment (segment_runs s i))) :: 32 word)
           in
             if i + 1 = unat (segment_run_count s) \<or>
                segment' < first_segment (segment_runs s (i + 1))
             then Inr segment'
             else srun_walk s c (i + 1) segment'
                    (fragments_accum +
                     ucast ((first_segment (segment_runs s (i + 1)) -
                             first_segment (segment_runs s i)) *
                            fragments_per_segment (segment_runs s i)))))
     else Inr segment)"
  by pat_completeness auto
termination
  by (relation "measure (\<lambda>(s, c, i, seg, acc). unat (segment_run_count s) - i)") auto

declare srun_walk.simps [simp del]

text \<open>
  \<open>generate_new_chunk\<close>: \<open>Inr None\<close> is the \<open>NULL\<close> result, \<open>Inl\<close> a fault. The chunk
  starts as \<open>chunk_new\<close>.
\<close>

definition generate_new_chunk ::
  "stream_sys \<Rightarrow> chunk option \<Rightarrow> hds_stream \<Rightarrow> fault + chunk option" where
  "generate_new_chunk sys last_chunk hds_stream =
    (let start =
       (case last_chunk of
          Some l \<Rightarrow>
            Inr (chunk_new\<lparr> timestamp := timestamp l + duration l, frag_num := frag_num l + 1 \<rparr>,
                 if live sys then 0 else unat (frun_entry l))
        | None \<Rightarrow>
            if live sys then
              (if timescale hds_stream = 0 then Inl DivByZero
               else Inr (chunk_new\<lparr> timestamp :=
                           (live_current_time hds_stream * ucast (afrt_timescale hds_stream)) div
                             ucast (timescale hds_stream) \<rparr>, 0))
            else
              Inr (chunk_new\<lparr> timestamp := fragment_timestamp (fragment_runs hds_stream 0),
                              frag_num := fragment_number_start (fragment_runs hds_stream 0) \<rparr>, 0))
     in
       case start of
         Inl f \<Rightarrow> Inl f
       | Inr (c0, e0) \<Rightarrow>
           (case frun_walk hds_stream c0 e0 of
              None \<Rightarrow> Inr None
            | Some (c1, e1) \<Rightarrow>
                if e1 = unat (fragment_run_count hds_stream) then Inr None
                else
                  (case srun_walk hds_stream c1 0 0 (ucast (frag_num c1)) of
                     Inl f \<Rightarrow> Inl f
                   | Inr segment \<Rightarrow>
                       (let c2 = c1\<lparr> seg_num := segment, frun_entry := of_nat e1 \<rparr>
                        in
                          if live sys then Inr (Some c2)
                          else if afrt_timescale hds_stream = 0 then Inl DivByZero
                          else if duration_seconds sys \<le>
                                  (timestamp c2 + duration c2) div ucast (afrt_timescale hds_stream)
                          then Inr (Some (c2\<lparr> eof := True \<rparr>))
                          else Inr (Some c2)))))"

subsection \<open>Reading memory\<close>

text \<open>
  The value of a big-endian byte string (\<open>U32_AT\<close>, \<open>U64_AT\<close>).
\<close>

definition be_nat :: "byte list \<Rightarrow> nat" where
  "be_nat bs = foldl (\<lambda>a b. a * 256 + unat b) 0 bs"

text \<open>
  Reading \<open>k\<close> bytes at address \<open>a\<close>, where the only object that may be read is the
  block \<open>m\<close> (nothing at all when \<open>m\<close> is \<open>None\<close>: the pointer was derived from the
  null pointer).
\<close>

definition mem_read :: "buffer option \<Rightarrow> 64 word \<Rightarrow> nat \<Rightarrow> fault + byte list" where
  "mem_read m a k =
    (case m of
       None \<Rightarrow> Inl NullDeref
     | Some b \<Rightarrow>
         if addr b \<le> a \<and> unat (a - addr b) + k \<le> length (bytes b)
         then Inr (take k (drop (unat (a - addr b)) (bytes b)))
         else Inl ReadOutside)"

subsection \<open>The mdat locator: \<open>find_chunk_mdat\<close>\<close>

definition mdat_tag :: "byte list" where
  "mdat_tag = [0x6D, 0x64, 0x61, 0x74]"

text \<open>
  The \<open>do ... while\<close> loop, one box per iteration. The loop need not end (a box of
  size 0 that is not an mdat box is read again and again), so the function takes fuel:
  \<open>None\<close> is "no result within that many boxes". \<open>Some (Inr (len, ptr))\<close> is the
  returned length and the pointer stored through \<open>mdatptr\<close>; \<open>(0, 0)\<close> is the
  failure result. Pointers are addresses; their arithmetic wraps at 64 bits, and the
  differences compared with 8 and 12 are signed (\<open>ptrdiff_t\<close>).
\<close>

fun find_chunk_mdat ::
  "nat \<Rightarrow> buffer option \<Rightarrow> 64 word \<Rightarrow> 64 word \<Rightarrow> (fault + 32 word \<times> 64 word) option" where
  "find_chunk_mdat 0 m chunkdata chunkdata_end = None"
| "find_chunk_mdat (Suc n) m chunkdata chunkdata_end =
    (if chunkdata_end < chunkdata \<or> sint (chunkdata_end - chunkdata) < 8
     then Some (Inr (0, 0))
     else
       (case mem_read m chunkdata 4 of
          Inl f \<Rightarrow> Some (Inl f)
        | Inr sz \<Rightarrow>
            (let boxsize = (of_nat (be_nat sz) :: 64 word);
                 boxname = chunkdata + 4;
                 cd = chunkdata + 8
             in
               case
                 (if boxsize = 1 then
                    (if 12 \<le> sint (chunkdata_end - cd) then
                       (case mem_read m cd 8 of
                          Inl f \<Rightarrow> Inl f
                        | Inr sz64 \<Rightarrow>
                            Inr (Some (cd + 8, cd + 8 + ((of_nat (be_nat sz64) :: 64 word) - 16))))
                     else Inr None)
                  else Inr (Some (cd, cd + (boxsize - 8))))
               of
                 Inl f \<Rightarrow> Some (Inl f)
               | Inr None \<Rightarrow> Some (Inr (0, 0))
               | Inr (Some (boxdata, cd')) \<Rightarrow>
                   (case mem_read m boxname 4 of
                      Inl f \<Rightarrow> Some (Inl f)
                    | Inr name \<Rightarrow>
                        if name = mdat_tag
                        then Some (Inr (ucast (chunkdata_end - boxdata), boxdata))
                        else find_chunk_mdat n m cd' chunkdata_end))))"

subsection \<open>The fetcher: \<open>download_chunk\<close> and the downloader's loop body\<close>

text \<open>
  What the outside world answers to one fetch: the size \<open>stream_Size\<close> reports, the
  address \<open>malloc\<close> returns (0 when it fails) and the bytes \<open>stream_Read\<close> delivers
  (it stores at most \<open>size\<close> of them). \<open>stream_UrlNew\<close> returning \<open>NULL\<close> is the
  response \<open>None\<close>. The URL is built from the server, the movie id, the quality
  modifier and the segment and fragment numbers; it only selects the response.
\<close>

record response =
  resp_size :: int
  resp_addr :: "64 word"
  resp_bytes :: "byte list"

text \<open>
  \<open>download_chunk\<close> returns the data pointer (\<open>None\<close> for \<open>NULL\<close>) and the chunk as
  it leaves it.
\<close>

definition download_chunk :: "response option \<Rightarrow> chunk \<Rightarrow> buffer option \<times> chunk" where
  "download_chunk resp chunk =
    (case resp of
       None \<Rightarrow> (None, chunk\<lparr> failed := True \<rparr>)
     | Some r \<Rightarrow>
         (let chunk1 = chunk\<lparr> data_len := word_of_int (resp_size r) \<rparr> in
            if MAX_REQUEST_SIZE < resp_size r then (None, chunk1)
            else if resp_addr r = 0 then (None, chunk1)
            else
              (let got = take (nat (resp_size r)) (resp_bytes r);
                   chunk2 = chunk1\<lparr> data_len := of_nat (length got) \<rparr>
               in
                 if int (length got) < resp_size r then (None, chunk2\<lparr> failed := True \<rparr>)
                 else (Some \<lparr> addr = resp_addr r, bytes = got \<rparr>, chunk2\<lparr> failed := False \<rparr>))))"

text \<open>The address held by a data pointer.\<close>

definition ptr_of :: "buffer option \<Rightarrow> 64 word" where
  "ptr_of d = (case d of None \<Rightarrow> 0 | Some b \<Rightarrow> addr b)"

text \<open>
  One iteration of \<open>while( hds_stream->chunks_downloadpos )\<close> in \<open>download_thread\<close>:
  the state after it, or a fault, or \<open>None\<close> when the mdat locator does not return.
  With a null cursor the loop is not entered.
\<close>

definition download_iteration ::
  "nat \<Rightarrow> response option \<Rightarrow> stream_sys \<Rightarrow> hds_stream \<Rightarrow>
   (fault + stream_sys \<times> hds_stream) option" where
  "download_iteration fuel resp sys hds_stream =
    (case chunks_downloadpos hds_stream of
       Null \<Rightarrow> Some (Inr (sys, hds_stream))
     | Dangling \<Rightarrow> Some (Inl UseAfterFree)
     | At i \<Rightarrow>
         if length (chunks hds_stream) \<le> i then Some (Inl UseAfterFree)
         else
           (let chunk = chunks hds_stream ! i;
                (d, chunk1) = download_chunk resp chunk
            in
              if failed chunk1
              then Some (Inr (sys, hds_stream\<lparr> chunks := (chunks hds_stream)[i := chunk1] \<rparr>))
              else
                (case find_chunk_mdat fuel d (ptr_of d) (ptr_of d + ucast (data_len chunk1)) of
                   None \<Rightarrow> None
                 | Some (Inl f) \<Rightarrow> Some (Inl f)
                 | Some (Inr (len, ptr)) \<Rightarrow>
                     (let chunk2 = chunk1\<lparr> mdat_len := len, mdat_data := ptr \<rparr>;
                          chunk3 = (if mdat_len chunk2 = 0
                                    then chunk2\<lparr> mdat_len :=
                                           data_len chunk2 - ucast (mdat_data chunk2 - ptr_of d) \<rparr>
                                    else chunk2);
                          chunk4 = chunk3\<lparr> data := d \<rparr>
                      in
                        Some (Inr (sys\<lparr> chunk_count := chunk_count sys + 1 \<rparr>,
                                   hds_stream\<lparr> chunks := (chunks hds_stream)[i := chunk4],
                                     chunks_downloadpos :=
                                       (if i + 1 < length (chunks hds_stream)
                                        then At (i + 1) else Null) \<rparr>))))))"

subsection \<open>The reader: \<open>send_flv_header\<close>, \<open>read_chunk_data\<close>, \<open>Read\<close>, \<open>Peek\<close>\<close>

definition flv_header :: "byte list" where
  "flv_header = [0x46, 0x4C, 0x56, 0x1, 0x5, 0x0, 0x0, 0x0, 0x9, 0x0, 0x0, 0x0, 0x0]"

text \<open>
  \<open>send_flv_header\<close>: the bytes copied into the buffer, the returned count and the
  state. The \<open>memcpy\<close> reads \<open>to_be_read\<close> bytes of the 13-byte array from offset
  \<open>flv_header_bytes_sent\<close>.
\<close>

definition send_flv_header ::
  "stream_sys \<Rightarrow> 32 word \<Rightarrow> bool \<Rightarrow> fault + byte list \<times> 32 word \<times> stream_sys" where
  "send_flv_header p_sys i_read peek =
    (let to_be_read = (if 13 - flv_header_bytes_sent p_sys < i_read
                       then 13 - flv_header_bytes_sent p_sys else i_read)
     in
       if to_be_read = 0 then Inr ([], to_be_read, p_sys)
       else if unat (flv_header_bytes_sent p_sys) + unat to_be_read \<le> length flv_header
       then Inr (take (unat to_be_read) (drop (unat (flv_header_bytes_sent p_sys)) flv_header),
                 to_be_read,
                 if peek then p_sys
                 else p_sys\<lparr> flv_header_bytes_sent := flv_header_bytes_sent p_sys + to_be_read \<rparr>)
       else Inl ReadOutside)"

text \<open>
  The copy out of one chunk in \<open>read_chunk_data\<close>: the bytes copied, the chunk with
  its \<open>mdat_pos\<close> advanced, and what is left of \<open>read_len\<close>.
\<close>

definition copy_mdat :: "chunk \<Rightarrow> 32 word \<Rightarrow> fault + byte list \<times> chunk \<times> 32 word" where
  "copy_mdat chunk read_len =
    (if mdat_pos chunk < mdat_len chunk then
       (let cp_len = (if read_len < mdat_len chunk - mdat_pos chunk
                      then read_len else mdat_len chunk - mdat_pos chunk)
        in
          case mem_read (data chunk) (mdat_data chunk + ucast (mdat_pos chunk)) (unat cp_len) of
            Inl f \<Rightarrow> Inl f
          | Inr bs \<Rightarrow> Inr (bs, chunk\<lparr> mdat_pos := mdat_pos chunk + cp_len \<rparr>, read_len - cp_len))
     else Inr ([], chunk, read_len))"

text \<open>
  The local state of \<open>read_chunk_data\<close> in its first loop: the bytes stored in the
  buffer so far, \<open>read_len\<close>, the chain from \<open>chunk\<close> on (empty when \<open>chunk\<close> is
  null), the chunks the loop has stepped over without freeing them (live mode), the
  flags \<open>*eof\<close> and \<open>dl\<close>, and the number of chunks freed at the head.
\<close>

record reader =
  buffer :: "byte list"
  read_len :: "32 word"
  passed :: "chunk list"
  chain :: "chunk list"
  eof_flag :: bool
  dl_flag :: bool
  freed :: nat

text \<open>
  The first \<open>while\<close> loop of \<open>read_chunk_data\<close>. In the VOD branch \<open>next\<close> is read
  before \<open>generate_new_chunk\<close> links a new chunk behind a chunk that has no
  successor; the chunk is then freed and \<open>chunk\<close> and \<open>chunks_head\<close> become that
  earlier, null, \<open>next\<close>: the chain is empty afterwards.
\<close>

function drain :: "stream_sys \<Rightarrow> hds_stream \<Rightarrow> reader \<Rightarrow> fault + reader" where
  "drain sys stream r =
    (case chain r of
       [] \<Rightarrow> Inr r
     | c # rest \<Rightarrow>
         if data c = None \<or> read_len r = 0 \<or> (eof c \<and> mdat_len c \<le> mdat_pos c) then Inr r
         else
           (case copy_mdat c (read_len r) of
              Inl f \<Rightarrow> Inl f
            | Inr (bs, c', n') \<Rightarrow>
                (let r1 = r\<lparr> buffer := buffer r @ bs, read_len := n' \<rparr> in
                   if mdat_len c' \<le> mdat_pos c' \<or> failed c' then
                     (if live sys then drain sys stream (r1\<lparr> passed := passed r @ [c'], chain := rest \<rparr>)
                      else if eof c' then drain sys stream (r1\<lparr> chain := c' # rest, eof_flag := True \<rparr>)
                      else if rest = [] then
                        (case generate_new_chunk sys (Some c') stream of
                           Inl f \<Rightarrow> Inl f
                         | Inr g \<Rightarrow> Inr (r1\<lparr> chain := [], dl_flag := True, freed := freed r + 1 \<rparr>))
                      else drain sys stream (r1\<lparr> chain := rest, freed := freed r + 1 \<rparr>))
                   else drain sys stream (r1\<lparr> chain := c' # rest \<rparr>))))"
  by pat_completeness auto

termination drain
proof -
  have sub: "\<And>(c::32 word) n. c \<le> n \<Longrightarrow> c \<noteq> 0 \<Longrightarrow> unat (n - c) < unat n"
  proof -
    fix c n :: "32 word"
    assume le: "c \<le> n" and nz: "c \<noteq> 0"
    have "unat (n - c) = unat n - unat c" using le by (rule unat_sub)
    moreover have "0 < unat c" using nz by (simp add: unat_gt_0)
    moreover have "unat c \<le> unat n" using le by (simp add: word_le_nat_alt)
    ultimately show "unat (n - c) < unat n" by arith
  qed
  have less: "\<And>c n bs c' n'. copy_mdat c n = Inr (bs, c', n') \<Longrightarrow> n \<noteq> 0 \<Longrightarrow>
      mdat_pos c < mdat_len c \<Longrightarrow> unat n' < unat n"
  proof -
    fix c n bs c' n'
    assume a: "copy_mdat c n = Inr (bs, c', n')" and nz: "n \<noteq> 0" and lt: "mdat_pos c < mdat_len c"
    have d: "mdat_len c - mdat_pos c \<noteq> 0" using lt by auto
    show "unat n' < unat n"
    proof (cases "n < mdat_len c - mdat_pos c")
      case True
      then have "n' = n - n" using a lt
        by (auto simp: copy_mdat_def Let_def split: sum.splits)
      then show ?thesis using nz by (simp add: unat_gt_0)
    next
      case False
      then have "n' = n - (mdat_len c - mdat_pos c)" using a lt
        by (auto simp: copy_mdat_def Let_def split: sum.splits)
      moreover have "mdat_len c - mdat_pos c \<le> n" using False by simp
      ultimately show ?thesis using sub d by simp
    qed
  qed
  have same: "\<And>c n bs c' n'. copy_mdat c n = Inr (bs, c', n') \<Longrightarrow>
      mdat_len c \<le> mdat_pos c \<Longrightarrow> c' = c"
    by (auto simp: copy_mdat_def Let_def split: if_splits sum.splits)
  have step: "\<And>c n bs c' n'. copy_mdat c n = Inr (bs, c', n') \<Longrightarrow> n \<noteq> 0 \<Longrightarrow>
      \<not> (eof c \<and> mdat_len c \<le> mdat_pos c) \<Longrightarrow>
      eof c' \<or> \<not> mdat_len c' \<le> mdat_pos c' \<Longrightarrow> unat n' < unat n"
  proof -
    fix c n bs c' n'
    assume a: "copy_mdat c n = Inr (bs, c', n')" and nz: "n \<noteq> 0"
      and g: "\<not> (eof c \<and> mdat_len c \<le> mdat_pos c)"
      and h: "eof c' \<or> \<not> mdat_len c' \<le> mdat_pos c'"
    have "mdat_pos c < mdat_len c"
    proof (rule ccontr)
      assume "\<not> mdat_pos c < mdat_len c"
      then have le: "mdat_len c \<le> mdat_pos c" by simp
      then have "c' = c" using a same by blast
      then show False using g h le by auto
    qed
    then show "unat n' < unat n" using a nz less by blast
  qed
  show ?thesis
    apply (relation "measures [\<lambda>(sys, s, r). length (chain r), \<lambda>(sys, s, r). unat (read_len r)]")
        apply simp
       apply simp
      apply (simp, metis step)
     apply simp
    apply (simp, metis step)
    done
qed

declare drain.simps [simp del]

text \<open>
  Positions in the chain count from \<open>chunks_head\<close>: when the reader frees \<open>k\<close>
  chunks at the head, a cursor to one of them dangles and the others move down.
\<close>

fun cursor_after_free :: "nat \<Rightarrow> cursor \<Rightarrow> cursor" where
  "cursor_after_free k Null = Null"
| "cursor_after_free k Dangling = Dangling"
| "cursor_after_free k (At i) = (if i < k then Dangling else At (i - k))"

text \<open>
  The second \<open>while\<close> loop of \<open>read_chunk_data\<close> (VOD only), which keeps
  \<open>download_leadtime\<close> seconds of chunks in the chain: \<open>ch\<close> is the chain, \<open>j\<close> the
  position of \<open>chunk\<close>. Nothing bounds the number of its iterations in every state,
  so it takes fuel. The result is the chain and the flag \<open>dl\<close>.
\<close>

fun lead_loop ::
  "nat \<Rightarrow> stream_sys \<Rightarrow> hds_stream \<Rightarrow> chunk list \<Rightarrow> nat \<Rightarrow> 64 word \<Rightarrow> bool \<Rightarrow>
   (fault + chunk list \<times> bool) option" where
  "lead_loop 0 sys stream ch j total_duration dl = None"
| "lead_loop (Suc n) sys stream ch j total_duration dl =
    (if length ch \<le> j then Some (Inr (ch, dl))
     else if afrt_timescale stream = 0 then Some (Inl DivByZero)
     else if total_duration div ucast (afrt_timescale stream) < download_leadtime stream \<and>
             \<not> eof (ch ! j)
     then
       (case (if j + 1 = length ch
              then (case generate_new_chunk sys (Some (ch ! j)) stream of
                      Inl f \<Rightarrow> Inl f
                    | Inr None \<Rightarrow> Inr (ch, True)
                    | Inr (Some g) \<Rightarrow> Inr (ch @ [g], True))
              else Inr (ch, dl))
        of
          Inl f \<Rightarrow> Some (Inl f)
        | Inr (ch', dl') \<Rightarrow>
            if j + 1 < length ch'
            then lead_loop n sys stream ch' (j + 1) (total_duration + duration (ch' ! (j + 1))) dl'
            else Some (Inr (ch', dl')))
     else Some (Inr (ch, dl)))"

text \<open>
  \<open>read_chunk_data\<close>: the bytes stored in the buffer (their number is the return
  value), the stream afterwards and whether \<open>*eof\<close> was set.
\<close>

definition read_chunk_data ::
  "nat \<Rightarrow> stream_sys \<Rightarrow> 32 word \<Rightarrow> hds_stream \<Rightarrow> (fault + byte list \<times> hds_stream \<times> bool) option" where
  "read_chunk_data fuel sys len stream =
    (if (case chunks stream of [] \<Rightarrow> False | c # rest \<Rightarrow> eof c \<and> mdat_len c \<le> mdat_pos c)
     then Some (Inr ([], stream, True))
     else
       (case drain sys stream \<lparr> buffer = [], read_len = len, passed = [], chain = chunks stream,
                                eof_flag = False, dl_flag = False, freed = 0 \<rparr> of
          Inl f \<Rightarrow> Some (Inl f)
        | Inr r \<Rightarrow>
            if live sys then
              Some (Inr (buffer r,
                         stream\<lparr> chunks := passed r @ chain r,
                                 chunks_livereadpos :=
                                   (if chain r = [] then Null else At (length (passed r))) \<rparr>,
                         eof_flag r))
            else
              (let stream1 = stream\<lparr> chunks := chain r,
                               chunks_livereadpos := cursor_after_free (freed r) (chunks_livereadpos stream),
                               chunks_downloadpos := cursor_after_free (freed r) (chunks_downloadpos stream) \<rparr>
               in
                 case chain r of
                   [] \<Rightarrow> Some (Inr (buffer r, stream1, eof_flag r))
                 | c # rest \<Rightarrow>
                     (case lead_loop fuel sys stream1 (chain r) 0 (duration c) (dl_flag r) of
                        None \<Rightarrow> None
                      | Some (Inl f) \<Rightarrow> Some (Inl f)
                      | Some (Inr (ch, dl')) \<Rightarrow>
                          Some (Inr (buffer r, stream1\<lparr> chunks := ch \<rparr>, eof_flag r))))))"

text \<open>
  The loop of \<open>Read\<close>. The reader takes no lock, and the downloader and the live
  poller write the stream while the loop runs: \<open>env k\<close> is what they have done to the
  stream before the call of \<open>read_chunk_data\<close> that is made with \<open>k\<close> iterations of
  fuel left (\<open>\<lambda>k s. s\<close> when they do nothing). The loop spins while no data is there
  and the end of the stream is not reached, so it takes fuel.
\<close>

fun Read_loop ::
  "(nat \<Rightarrow> hds_stream \<Rightarrow> hds_stream) \<Rightarrow> nat \<Rightarrow> stream_sys \<Rightarrow> hds_stream \<Rightarrow> 32 word \<Rightarrow> bool \<Rightarrow>
   (fault + byte list \<times> hds_stream) option" where
  "Read_loop env 0 sys stream i_read eof_seen =
    (if i_read = 0 \<or> eof_seen then Some (Inr ([], stream)) else None)"
| "Read_loop env (Suc n) sys stream i_read eof_seen =
    (if i_read = 0 \<or> eof_seen then Some (Inr ([], stream))
     else
       (case read_chunk_data (Suc n) sys i_read (env n stream) of
          None \<Rightarrow> None
        | Some (Inl f) \<Rightarrow> Some (Inl f)
        | Some (Inr (bs, stream', eof')) \<Rightarrow>
            (case Read_loop env n sys stream' (i_read - of_nat (length bs)) eof' of
               None \<Rightarrow> None
             | Some (Inl f) \<Rightarrow> Some (Inl f)
             | Some (Inr (bs', stream'')) \<Rightarrow> Some (Inr (bs @ bs', stream'')))))"

text \<open>
  \<open>Read\<close>: the buffer holds the bytes stored by \<open>send_flv_header\<close>, then the bytes
  stored by the calls of \<open>read_chunk_data\<close>; the result gives the two parts, and the
  return value is their length. The stream read is \<open>hds_streams[0]\<close>.
\<close>

definition Read ::
  "(nat \<Rightarrow> hds_stream \<Rightarrow> hds_stream) \<Rightarrow> nat \<Rightarrow> stream_sys \<Rightarrow> 32 word \<Rightarrow>
   (fault + (byte list \<times> byte list) \<times> stream_sys) option" where
  "Read env fuel p_sys i_read =
    (case hds_streams p_sys of
       [] \<Rightarrow> Some (Inr (([], []), p_sys))
     | stream # others \<Rightarrow>
         (case send_flv_header p_sys i_read False of
            Inl f \<Rightarrow> Some (Inl f)
          | Inr (hdr, hdr_bytes, p_sys1) \<Rightarrow>
              (case Read_loop env fuel p_sys1 stream (i_read - hdr_bytes) False of
                 None \<Rightarrow> None
               | Some (Inl f) \<Rightarrow> Some (Inl f)
               | Some (Inr (payload, stream')) \<Rightarrow>
                   Some (Inr ((hdr, payload), p_sys1\<lparr> hds_streams := stream' # others \<rparr>)))))"

text \<open>
  A sequence of \<open>Read\<close> calls, each with its requested size and the environment it
  runs in; the result lists what each call stored.
\<close>

fun Reads ::
  "nat \<Rightarrow> stream_sys \<Rightarrow> ((nat \<Rightarrow> hds_stream \<Rightarrow> hds_stream) \<times> 32 word) list \<Rightarrow>
   (fault + (byte list \<times> byte list) list \<times> stream_sys) option" where
  "Reads fuel p_sys [] = Some (Inr ([], p_sys))"
| "Reads fuel p_sys ((env, i_read) # calls) =
    (case Read env fuel p_sys i_read of
       None \<Rightarrow> None
     | Some (Inl f) \<Rightarrow> Some (Inl f)
     | Some (Inr (out, p_sys1)) \<Rightarrow>
         (case Reads fuel p_sys1 calls of
            None \<Rightarrow> None
          | Some (Inl f) \<Rightarrow> Some (Inl f)
          | Some (Inr (outs, p_sys2)) \<Rightarrow> Some (Inr (out # outs, p_sys2))))"

text \<open>The bytes a sequence of calls delivers, in order.\<close>

definition delivered :: "(byte list \<times> byte list) list \<Rightarrow> byte list" where
  "delivered outs = concat (map (\<lambda>(hdr, payload). hdr @ payload) outs)"

text \<open>
  \<open>Peek\<close>: what \<open>*pp_peek\<close> is set to (nothing, a position in the static header, or
  an address in a chunk's data) and the return value.
\<close>

datatype peek_ptr = Unset | Header nat | Mdat "64 word"

definition Peek :: "stream_sys \<Rightarrow> 32 word \<Rightarrow> peek_ptr \<times> 32 word" where
  "Peek p_sys i_peek =
    (case hds_streams p_sys of
       [] \<Rightarrow> (Unset, 0)
     | stream # others \<Rightarrow>
         if flv_header_bytes_sent p_sys < 13
         then (Header (unat (flv_header_bytes_sent p_sys)), 13 - flv_header_bytes_sent p_sys)
         else
           (case chunks stream of
              [] \<Rightarrow> (Unset, 0)
            | chunk # rest \<Rightarrow>
                if \<not> failed chunk \<and> data chunk \<noteq> None
                then (Mdat (mdat_data chunk + ucast (mdat_pos chunk)),
                      if mdat_len chunk - mdat_pos chunk < i_peek
                      then mdat_len chunk - mdat_pos chunk else i_peek)
                else (Unset, 0)))"

subsection \<open>The bootstrap parser: \<open>parse_asrt\<close>, \<open>parse_afrt\<close>, \<open>parse_BootstrapData\<close>\<close>

text \<open>
  The blob is the byte list between \<open>data\<close> and \<open>data_end\<close>; a pointer into it is
  its offset from \<open>data\<close>, an integer that may lie past the end. Every read says so
  when it leaves the blob.
\<close>

definition blob_read :: "byte list \<Rightarrow> int \<Rightarrow> nat \<Rightarrow> fault + byte list" where
  "blob_read blob p k =
    (if 0 \<le> p \<and> p + int k \<le> int (length blob)
     then Inr (take k (drop (nat p) blob)) else Inl ReadOutside)"

definition U8_AT :: "byte list \<Rightarrow> int \<Rightarrow> fault + 8 word" where
  "U8_AT blob p = (case blob_read blob p 1 of Inl f \<Rightarrow> Inl f | Inr bs \<Rightarrow> Inr (of_nat (be_nat bs)))"

definition U32_AT :: "byte list \<Rightarrow> int \<Rightarrow> fault + 32 word" where
  "U32_AT blob p = (case blob_read blob p 4 of Inl f \<Rightarrow> Inl f | Inr bs \<Rightarrow> Inr (of_nat (be_nat bs)))"

definition U64_AT :: "byte list \<Rightarrow> int \<Rightarrow> fault + 64 word" where
  "U64_AT blob p = (case blob_read blob p 8 of Inl f \<Rightarrow> Inl f | Inr bs \<Rightarrow> Inr (of_nat (be_nat bs)))"

text \<open>
  \<open>memchr( p, '\0', data_end - p )\<close>: the offset of the first NUL at or after \<open>p\<close>,
  or \<open>None\<close> for \<open>NULL\<close>. When \<open>p\<close> is past \<open>data_end\<close> the length, converted to
  \<open>size_t\<close>, is huge and the search starts outside the blob.
\<close>

definition memchr0 :: "byte list \<Rightarrow> int \<Rightarrow> fault + int option" where
  "memchr0 blob p =
    (if p < 0 \<or> int (length blob) < p then Inl ReadOutside
     else if 0 \<in> set (drop (nat p) blob)
     then Inr (Some (p + int (length (takeWhile (\<lambda>b. b \<noteq> 0) (drop (nat p) blob)))))
     else Inr None)"

text \<open>
  \<open>strndup( p, data_end - p )\<close>: the bytes from \<open>p\<close> up to the first NUL or the end
  of the blob; \<open>strnlen( p, data_end - p )\<close> is the length of that string. The
  allocation is taken to succeed.
\<close>

definition strndup_at :: "byte list \<Rightarrow> int \<Rightarrow> fault + byte list" where
  "strndup_at blob p =
    (if p < 0 \<or> int (length blob) < p then Inl ReadOutside
     else Inr (takeWhile (\<lambda>b. b \<noteq> 0) (drop (nat p) blob)))"

definition asrt_tag :: "byte list" where "asrt_tag = [0x61, 0x73, 0x72, 0x74]"
definition afrt_tag :: "byte list" where "afrt_tag = [0x61, 0x66, 0x72, 0x74]"
definition abst_tag :: "byte list" where "abst_tag = [0x61, 0x62, 0x73, 0x74]"

text \<open>
  The quality-entry loop of \<open>parse_asrt\<close>, \<open>n\<close> entries to go: \<open>None\<close> where the
  function returns \<open>NULL\<close>, otherwise the pointer behind the entries and
  \<open>quality_found\<close>. \<open>strncmp\<close> over the length of the modifier compares the modifier
  with the start of the label.
\<close>

fun asrt_quality ::
  "hds_stream \<Rightarrow> byte list \<Rightarrow> nat \<Rightarrow> int \<Rightarrow> bool \<Rightarrow> fault + (int \<times> bool) option" where
  "asrt_quality s blob 0 p quality_found = Inr (Some (p, quality_found))"
| "asrt_quality s blob (Suc n) p quality_found =
    (case memchr0 blob p of
       Inl f \<Rightarrow> Inl f
     | Inr None \<Rightarrow> Inr None
     | Inr (Some z) \<Rightarrow>
         (let label = take (nat (z - p)) (drop (nat p) blob);
              found = (quality_found \<or>
                       (case quality_segment_modifier s of
                          None \<Rightarrow> False
                        | Some q \<Rightarrow> take (length q) label = q))
          in
            if int (length blob) \<le> z + 1 then Inr None
            else asrt_quality s blob n (z + 1) found))"

text \<open>The segment-run loop of \<open>parse_asrt\<close>, \<open>n\<close> entries to go.\<close>

fun asrt_runs :: "byte list \<Rightarrow> bool \<Rightarrow> nat \<Rightarrow> int \<Rightarrow> hds_stream \<Rightarrow> fault + int \<times> hds_stream" where
  "asrt_runs blob quality_found 0 p s = Inr (p, s)"
| "asrt_runs blob quality_found (Suc n) p s =
    (let i = unat (segment_run_count s) in
       case (if quality_found
             then (case U32_AT blob p of
                     Inl f \<Rightarrow> Inl f
                   | Inr v \<Rightarrow> Inr (s\<lparr> segment_runs :=
                               (segment_runs s)(i := (segment_runs s i)\<lparr> first_segment := v \<rparr>) \<rparr>))
             else Inr s)
       of
         Inl f \<Rightarrow> Inl f
       | Inr s1 \<Rightarrow>
           (case (if quality_found
                  then (case U32_AT blob (p + 4) of
                          Inl f \<Rightarrow> Inl f
                        | Inr v \<Rightarrow> Inr (s1\<lparr> segment_runs :=
                                    (segment_runs s1)(i := (segment_runs s1 i)\<lparr> fragments_per_segment := v \<rparr>) \<rparr>))
                  else Inr s1)
            of
              Inl f \<Rightarrow> Inl f
            | Inr s2 \<Rightarrow>
                asrt_runs blob quality_found n (p + 8)
                  (s2\<lparr> segment_run_count := segment_run_count s2 + 1 \<rparr>)))"

text \<open>
  \<open>parse_asrt\<close> from the check behind the quality entries on, at pointer \<open>p\<close>: the
  entry count, its two checks and the segment-run loop. \<open>8 * segment_run_entry_count\<close>
  is a 32-bit product.
\<close>

definition asrt_entries ::
  "hds_stream \<Rightarrow> byte list \<Rightarrow> bool \<Rightarrow> int \<Rightarrow> fault + int option \<times> hds_stream" where
  "asrt_entries s blob quality_found p =
    (if int (length blob) - p < 4 then Inr (None, s)
     else
       (case U32_AT blob p of
          Inl f \<Rightarrow> Inl f
        | Inr segment_run_entry_count \<Rightarrow>
            if int (length blob) - (p + 4) < uint (8 * segment_run_entry_count)
            then Inr (None, s)
            else if MAX_HDS_SEGMENT_RUNS \<le> unat segment_run_entry_count
            then Inr (None, s)
            else
              (case asrt_runs blob quality_found (unat segment_run_entry_count) (p + 4) s of
                 Inl f \<Rightarrow> Inl f
               | Inr (p', s') \<Rightarrow> Inr (Some p', s'))))"

text \<open>
  \<open>parse_asrt\<close>, called with \<open>data\<close> at offset \<open>box\<close> of the blob: the returned
  pointer (\<open>None\<close> for \<open>NULL\<close>) and the stream.
\<close>

definition parse_asrt :: "hds_stream \<Rightarrow> byte list \<Rightarrow> int \<Rightarrow> fault + int option \<times> hds_stream" where
  "parse_asrt s blob box =
    (case U32_AT blob box of
       Inl f \<Rightarrow> Inl f
     | Inr asrt_len \<Rightarrow>
         if int (length blob) - box < uint asrt_len \<or> int (length blob) - box < 14
         then Inr (None, s)
         else
           (case blob_read blob (box + 4) 4 of
              Inl f \<Rightarrow> Inl f
            | Inr tag \<Rightarrow>
                if tag \<noteq> asrt_tag then Inr (None, s)
                else
                  (case U8_AT blob (box + 12) of
                     Inl f \<Rightarrow> Inl f
                   | Inr quality_entry_count \<Rightarrow>
                       (case asrt_quality s blob (unat quality_entry_count) (box + 13)
                               (quality_segment_modifier s = None) of
                          Inl f \<Rightarrow> Inl f
                        | Inr None \<Rightarrow> Inr (None, s)
                        | Inr (Some (p, quality_found)) \<Rightarrow>
                            asrt_entries s blob quality_found p))))"

text \<open>
  The quality-entry loop of \<open>parse_afrt\<close>; what it computes in \<open>quality_found\<close> is
  not used afterwards.
\<close>

fun afrt_quality :: "byte list \<Rightarrow> nat \<Rightarrow> int \<Rightarrow> fault + int option" where
  "afrt_quality blob 0 p = Inr (Some p)"
| "afrt_quality blob (Suc n) p =
    (case memchr0 blob p of
       Inl f \<Rightarrow> Inl f
     | Inr None \<Rightarrow> Inr None
     | Inr (Some z) \<Rightarrow> afrt_quality blob n (z + 1))"

text \<open>
  The fragment-run loop of \<open>parse_afrt\<close>, \<open>n\<close> entries to go. The entries stored
  before a \<open>NULL\<close> return stay in the stream.
\<close>

fun afrt_runs :: "byte list \<Rightarrow> nat \<Rightarrow> int \<Rightarrow> hds_stream \<Rightarrow> fault + int option \<times> hds_stream" where
  "afrt_runs blob 0 p s = Inr (Some p, s)"
| "afrt_runs blob (Suc n) p s =
    (if int (length blob) - p < 16 then Inr (None, s)
     else if MAX_HDS_FRAGMENT_RUNS \<le> unat (fragment_run_count s) then Inr (None, s)
     else
       (case U32_AT blob p of
          Inl f \<Rightarrow> Inl f
        | Inr start \<Rightarrow>
            (case U64_AT blob (p + 4) of
               Inl f \<Rightarrow> Inl f
             | Inr ts \<Rightarrow>
                 (case U32_AT blob (p + 12) of
                    Inl f \<Rightarrow> Inl f
                  | Inr dur \<Rightarrow>
                      (case (if dur = 0
                             then (case U8_AT blob (p + 16) of
                                     Inl f \<Rightarrow> Inl f
                                   | Inr d \<Rightarrow> Inr (d, p + 17))
                             else Inr (0, p + 16))
                       of
                         Inl f \<Rightarrow> Inl f
                       | Inr (d, p') \<Rightarrow>
                           afrt_runs blob n p'
                             (s\<lparr> fragment_runs := (fragment_runs s)
                                    (unat (fragment_run_count s) :=
                                       \<lparr> fragment_number_start = start, fragment_duration = dur,
                                         fragment_timestamp = ts, discont = d \<rparr>),
                                  fragment_run_count := fragment_run_count s + 1 \<rparr>))))))"

definition parse_afrt :: "hds_stream \<Rightarrow> byte list \<Rightarrow> int \<Rightarrow> fault + int option \<times> hds_stream" where
  "parse_afrt s blob box =
    (case U32_AT blob box of
       Inl f \<Rightarrow> Inl f
     | Inr afrt_len \<Rightarrow>
         if int (length blob) - box < uint afrt_len \<or> int (length blob) - box < 9
         then Inr (None, s)
         else
           (case blob_read blob (box + 4) 4 of
              Inl f \<Rightarrow> Inl f
            | Inr tag \<Rightarrow>
                if tag \<noteq> afrt_tag then Inr (None, s)
                else if int (length blob) - (box + 12) < 9 then Inr (None, s)
                else
                  (case U32_AT blob (box + 12) of
                     Inl f \<Rightarrow> Inl f
                   | Inr scale \<Rightarrow>
                       (let s1 = s\<lparr> afrt_timescale := scale \<rparr> in
                          case U8_AT blob (box + 16) of
                            Inl f \<Rightarrow> Inl f
                          | Inr quality_entry_count \<Rightarrow>
                              (case afrt_quality blob (unat quality_entry_count) (box + 17) of
                                 Inl f \<Rightarrow> Inl f
                               | Inr None \<Rightarrow> Inr (None, s1)
                               | Inr (Some p) \<Rightarrow>
                                   if int (length blob) - p < 5 then Inr (None, s1)
                                   else
                                     (case U32_AT blob p of
                                        Inl f \<Rightarrow> Inl f
                                      | Inr fragment_run_entry_count \<Rightarrow>
                                          afrt_runs blob (unat fragment_run_entry_count)
                                            (p + 4) s1))))))"

text \<open>
  The server loop of \<open>parse_BootstrapData\<close>, \<open>n\<close> entries to go: \<open>None\<close> where the
  function returns from inside the loop.
\<close>

fun bootstrap_servers ::
  "byte list \<Rightarrow> nat \<Rightarrow> int \<Rightarrow> hds_stream \<Rightarrow> fault + int option \<times> hds_stream" where
  "bootstrap_servers blob 0 p s = Inr (Some p, s)"
| "bootstrap_servers blob (Suc n) p s =
    (case (if unat (server_entry_count s) < MAX_HDS_SERVERS
           then (case strndup_at blob p of
                   Inl f \<Rightarrow> Inl f
                 | Inr str \<Rightarrow>
                     Inr (Some (p + int (length str) + 1),
                          s\<lparr> server_entries :=
                               (server_entries s)(unat (server_entry_count s) := str),
                             server_entry_count := server_entry_count s + 1 \<rparr>))
           else (case memchr0 blob p of
                   Inl f \<Rightarrow> Inl f
                 | Inr None \<Rightarrow> Inr (None, s)
                 | Inr (Some z) \<Rightarrow> Inr (Some (z + 1), s)))
     of
       Inl f \<Rightarrow> Inl f
     | Inr (None, s') \<Rightarrow> Inr (None, s')
     | Inr (Some p', s') \<Rightarrow>
         if int (length blob) \<le> p' then Inr (None, s')
         else bootstrap_servers blob n p' s')"

text \<open>
  The quality-entry loop of \<open>parse_BootstrapData\<close>, \<open>n\<close> entries to go. The label is
  copied when \<open>quality_segment_modifier\<close> is not null.
\<close>

fun bootstrap_quality :: "byte list \<Rightarrow> nat \<Rightarrow> int \<Rightarrow> hds_stream \<Rightarrow> fault + int \<times> hds_stream" where
  "bootstrap_quality blob 0 p s = Inr (p, s)"
| "bootstrap_quality blob (Suc n) p s =
    (case strndup_at blob p of
       Inl f \<Rightarrow> Inl f
     | Inr str \<Rightarrow>
         bootstrap_quality blob n (p + int (length str) + 1)
           (if quality_segment_modifier s \<noteq> None
            then s\<lparr> quality_segment_modifier := Some str \<rparr> else s))"

text \<open>
  The two loops at the end of \<open>parse_BootstrapData\<close>: while boxes are left to read
  and the pointer is before \<open>data_end\<close>, parse one; the loop ends with the null
  pointer when a box is refused.
\<close>

fun asrt_loop :: "byte list \<Rightarrow> nat \<Rightarrow> int \<Rightarrow> hds_stream \<Rightarrow> fault + int option \<times> hds_stream" where
  "asrt_loop blob 0 p s = Inr (Some p, s)"
| "asrt_loop blob (Suc n) p s =
    (if p < int (length blob) then
       (case parse_asrt s blob p of
          Inl f \<Rightarrow> Inl f
        | Inr (None, s') \<Rightarrow> Inr (None, s')
        | Inr (Some p', s') \<Rightarrow> asrt_loop blob n p' s')
     else Inr (Some p, s))"

fun afrt_loop :: "byte list \<Rightarrow> nat \<Rightarrow> int \<Rightarrow> hds_stream \<Rightarrow> fault + int option \<times> hds_stream" where
  "afrt_loop blob 0 p s = Inr (Some p, s)"
| "afrt_loop blob (Suc n) p s =
    (if p < int (length blob) then
       (case parse_afrt s blob p of
          Inl f \<Rightarrow> Inl f
        | Inr (None, s') \<Rightarrow> Inr (None, s')
        | Inr (Some p', s') \<Rightarrow> afrt_loop blob n p' s')
     else Inr (Some p, s))"

text \<open>
  \<open>parse_BootstrapData\<close> in three parts: \<open>bootstrap_tables\<close> is the code from the
  read of \<open>asrt_count\<close> on, \<open>bootstrap_tail\<close> the code from the quality entries
  on, at pointer \<open>p\<close>. Reading \<open>afrt_count\<close> through the pointer the asrt loop leaves
  is a null dereference when \<open>parse_asrt\<close> has refused a box.
\<close>

definition bootstrap_tables :: "hds_stream \<Rightarrow> byte list \<Rightarrow> int \<Rightarrow> fault + hds_stream" where
  "bootstrap_tables s blob p =
    (case U8_AT blob p of
       Inl f \<Rightarrow> Inl f
     | Inr asrt_count \<Rightarrow>
         (case asrt_loop blob (unat asrt_count) (p + 1) (s\<lparr> segment_run_count := 0 \<rparr>) of
            Inl f \<Rightarrow> Inl f
          | Inr (None, s1) \<Rightarrow> Inl NullDeref
          | Inr (Some p1, s1) \<Rightarrow>
              (case U8_AT blob p1 of
                 Inl f \<Rightarrow> Inl f
               | Inr afrt_count \<Rightarrow>
                   (case afrt_loop blob (unat afrt_count) (p1 + 1)
                           (s1\<lparr> fragment_run_count := 0 \<rparr>) of
                      Inl f \<Rightarrow> Inl f
                    | Inr (p2, s2) \<Rightarrow> Inr s2))))"

definition bootstrap_tail :: "hds_stream \<Rightarrow> byte list \<Rightarrow> int \<Rightarrow> fault + hds_stream" where
  "bootstrap_tail s blob p =
    (let s1 = s\<lparr> quality_segment_modifier := None \<rparr> in
       case U8_AT blob p of
         Inl f \<Rightarrow> Inl f
       | Inr quality_entry_count \<Rightarrow>
           if 1 < quality_entry_count then Inr s1
           else
             (case bootstrap_quality blob (unat quality_entry_count) (p + 1)
                     (s1\<lparr> quality_segment_modifier := None \<rparr>) of
                Inl f \<Rightarrow> Inl f
              | Inr (p1, s2) \<Rightarrow>
                  if int (length blob) - p1 < 2 then Inr s2
                  else
                    (case memchr0 blob p1 of
                       Inl f \<Rightarrow> Inl f
                     | Inr None \<Rightarrow> Inr s2
                     | Inr (Some z) \<Rightarrow>
                         if int (length blob) - (z + 1) < 2 then Inr s2
                         else
                           (case memchr0 blob (z + 1) of
                              Inl f \<Rightarrow> Inl f
                            | Inr None \<Rightarrow> Inr s2
                            | Inr (Some z') \<Rightarrow>
                                if int (length blob) - (z' + 1) < 2 then Inr s2
                                else bootstrap_tables s2 blob (z' + 1)))))"

definition parse_BootstrapData :: "hds_stream \<Rightarrow> byte list \<Rightarrow> fault + hds_stream" where
  "parse_BootstrapData s blob =
    (case U32_AT blob 0 of
       Inl f \<Rightarrow> Inl f
     | Inr abst_len \<Rightarrow>
         if int (length blob) < uint abst_len \<or> int (length blob) < 29 then Inr s
         else
           (case blob_read blob 4 4 of
              Inl f \<Rightarrow> Inl f
            | Inr tag \<Rightarrow>
                if tag \<noteq> abst_tag then Inr s
                else
                  (case U32_AT blob 17 of
                     Inl f \<Rightarrow> Inl f
                   | Inr scale \<Rightarrow>
                       (case U64_AT blob 21 of
                          Inl f \<Rightarrow> Inl f
                        | Inr now \<Rightarrow>
                            (case strndup_at blob 37 of
                               Inl f \<Rightarrow> Inl f
                             | Inr name \<Rightarrow>
                                 (let s1 = s\<lparr> timescale := scale, live_current_time := now,
                                               movie_id := Some name \<rparr>;
                                      p = 37 + int (length name) + 1
                                  in
                                    if int (length blob) - p < 4 then Inr s1
                                    else
                                      (case U8_AT blob p of
                                         Inl f \<Rightarrow> Inl f
                                       | Inr server_count \<Rightarrow>
                                           (case bootstrap_servers blob (unat server_count) (p + 1)
                                                   (s1\<lparr> server_entry_count := 0 \<rparr>) of
                                              Inl f \<Rightarrow> Inl f
                                            | Inr (None, s2) \<Rightarrow> Inr s2
                                            | Inr (Some p1, s2) \<Rightarrow>
                                                if int (length blob) - p1 < 3 then Inr s2
                                                else bootstrap_tail s2 blob p1))))))))"

subsection \<open>Concrete streams\<close>

text \<open>
  The stream as \<open>parse_Manifest\<close> allocates it (\<open>memset\<close> to zero), and the stream
  and session of a VOD manifest of 10 seconds whose bootstrap has timescale 1000, the
  segment run \<open>{1, 4}\<close>, afrt timescale 1000 and the fragment run
  \<open>{start = 1, timestamp = 0, duration = 2500}\<close>.
\<close>

definition new_stream :: hds_stream where
  "new_stream = \<lparr> chunks = [], chunks_livereadpos = Null, chunks_downloadpos = Null,
     quality_segment_modifier = None, download_leadtime = 0, afrt_timescale = 0, timescale = 0,
     live_current_time = 0, movie_id = None, server_entries = (\<lambda>i. []), server_entry_count = 0,
     segment_runs = (\<lambda>i. \<lparr> first_segment = 0, fragments_per_segment = 0 \<rparr>),
     segment_run_count = 0,
     fragment_runs = (\<lambda>i. \<lparr> fragment_number_start = 0, fragment_duration = 0,
                               fragment_timestamp = 0, discont = 0 \<rparr>),
     fragment_run_count = 0 \<rparr>"

definition vod_stream :: hds_stream where
  "vod_stream = new_stream\<lparr> timescale := 1000, afrt_timescale := 1000, download_leadtime := 15,
     segment_runs := (segment_runs new_stream)
       (0 := \<lparr> first_segment = 1, fragments_per_segment = 4 \<rparr>),
     segment_run_count := 1,
     fragment_runs := (fragment_runs new_stream)
       (0 := \<lparr> fragment_number_start = 1, fragment_duration = 2500,
               fragment_timestamp = 0, discont = 0 \<rparr>),
     fragment_run_count := 1 \<rparr>"

definition vod_sys :: stream_sys where
  "vod_sys = \<lparr> chunk_count = 0, hds_streams = [vod_stream], flv_header_bytes_sent = 0,
     duration_seconds = 10, live = False, closed = False \<rparr>"

text \<open>
  The fragment-run table \<open>[{1, ts = 0, dur = 2000}, m, {10, ts = 50000, dur = 2000}]\<close>
  with the entry \<open>m\<close> in the middle.
\<close>

definition discontinuity_runs :: "fragment_run \<Rightarrow> nat \<Rightarrow> fragment_run" where
  "discontinuity_runs m =
     (fragment_runs new_stream)
       (0 := \<lparr> fragment_number_start = 1, fragment_duration = 2000,
               fragment_timestamp = 0, discont = 0 \<rparr>,
        1 := m,
        2 := \<lparr> fragment_number_start = 10, fragment_duration = 2000,
               fragment_timestamp = 50000, discont = 0 \<rparr>)"

text \<open>A marker whose fields are all zero.\<close>

definition zero_marker :: fragment_run where
  "zero_marker = \<lparr> fragment_number_start = 0, fragment_duration = 0,
                   fragment_timestamp = 0, discont = 0 \<rparr>"

text \<open>
  A marker that carries a fragment number: a discontinuity at fragment 5, after the
  fragments 1 to 4 of the first run. And the table
  \<open>[{1, ts = 0, dur = 2000}, {10, ts = 50000, dur = 2000}, {0, ts = 0, dur = 0}]\<close>, which
  ends with a zero-duration entry (its third entry is the all-zero entry of the fresh
  stream).
\<close>

definition numbered_marker :: fragment_run where
  "numbered_marker = \<lparr> fragment_number_start = 5, fragment_duration = 0,
                       fragment_timestamp = 8000, discont = 1 \<rparr>"

definition end_marker_runs :: "nat \<Rightarrow> fragment_run" where
  "end_marker_runs =
     (fragment_runs new_stream)
       (0 := \<lparr> fragment_number_start = 1, fragment_duration = 2000,
               fragment_timestamp = 0, discont = 0 \<rparr>,
        1 := \<lparr> fragment_number_start = 10, fragment_duration = 2000,
               fragment_timestamp = 50000, discont = 0 \<rparr>)"

text \<open>
  A fragment of one mdat box with the payload \<open>AA BB CC DD\<close>, the chunk of fragment 1
  once that fragment has been downloaded to address \<open>0x1000\<close>, and the VOD session with
  that chunk at the head of the chain.
\<close>

definition sample_fragment :: "byte list" where
  "sample_fragment = [0, 0, 0, 12, 0x6D, 0x64, 0x61, 0x74, 0xAA, 0xBB, 0xCC, 0xDD]"

definition sample_chunk :: chunk where
  "sample_chunk = chunk_new\<lparr> duration := 2500, frag_num := 1, seg_num := 1, data_len := 12,
     mdat_len := 4, mdat_data := 0x1008,
     data := Some \<lparr> addr = 0x1000, bytes = sample_fragment \<rparr> \<rparr>"

definition playing_sys :: stream_sys where
  "playing_sys = vod_sys\<lparr> hds_streams := [vod_stream\<lparr> chunks := [sample_chunk] \<rparr>] \<rparr>"

text \<open>The session of a manifest that matched no bootstrap: no stream at all.\<close>

definition empty_sys :: stream_sys where
  "empty_sys = vod_sys\<lparr> hds_streams := [] \<rparr>"

text \<open>
  Three fragments for the mdat locator: a box with size field 4 and tag \<open>00 00 00 08\<close>
  followed by the bytes \<open>mdat 01 02 03\<close>; an mdat box whose size field is 4; an mdat
  box in the extended form whose 64-bit size is 4.
\<close>

definition small_box_fragment :: "byte list" where
  "small_box_fragment = [0, 0, 0, 4, 0, 0, 0, 8, 0x6D, 0x64, 0x61, 0x74, 1, 2, 3]"

definition small_mdat_fragment :: "byte list" where
  "small_mdat_fragment = [0, 0, 0, 4, 0x6D, 0x64, 0x61, 0x74, 1, 2, 3]"

definition small_ext_fragment :: "byte list" where
  "small_ext_fragment =
     [0, 0, 0, 1, 0x6D, 0x64, 0x61, 0x74, 0, 0, 0, 0, 0, 0, 0, 4, 1, 2, 3, 4]"

text \<open>
  The reader stands at a chunk that has no data and is not the last chunk of the stream.
\<close>

definition stalled :: "hds_stream \<Rightarrow> bool" where
  "stalled s = (case chunks s of [] \<Rightarrow> False | c # rest \<Rightarrow> data c = None \<and> eof c = False)"

text \<open>
  The first two chunks of the VOD session before any download, with the download cursor
  on the first; a fetch that reports 8192 bytes and delivers 4096; a fetch that reports
  one byte more than 50 MiB; and the chain after the short fetch of the first chunk.
\<close>

definition first_chunk :: chunk where
  "first_chunk = chunk_new\<lparr> duration := 2500, frag_num := 1, seg_num := 1 \<rparr>"

definition second_chunk :: chunk where
  "second_chunk = chunk_new\<lparr> duration := 2500, timestamp := 2500, frag_num := 2, seg_num := 1 \<rparr>"

definition waiting_stream :: hds_stream where
  "waiting_stream = vod_stream\<lparr> chunks := [first_chunk, second_chunk], chunks_downloadpos := At 0 \<rparr>"

definition short_response :: response where
  "short_response = \<lparr> resp_size = 8192, resp_addr = 0x1000, resp_bytes = replicate 4096 0 \<rparr>"

definition oversize_response :: response where
  "oversize_response = \<lparr> resp_size = 52428801, resp_addr = 0x1000, resp_bytes = [] \<rparr>"

definition short_stream :: hds_stream where
  "short_stream = waiting_stream\<lparr> chunks := [first_chunk\<lparr> data_len := 4096, failed := True \<rparr>, second_chunk] \<rparr>"

text \<open>
  Bootstrap blobs. \<open>labelled_bootstrap\<close> is a well-formed \<open>abst\<close> box of 109 bytes:
  timescale 1000, an empty movie identifier, no server, the one quality label \<open>hi\<close>,
  empty DRM and metadata strings, one \<open>asrt\<close> box with the segment run \<open>{1, 4}\<close> and one
  \<open>afrt\<close> box with timescale 1000 and the fragment run \<open>{1, 0, 2500}\<close>.
  \<open>truncated_bootstrap\<close> is an \<open>abst\<close> box of 29 bytes: the fields up to the current
  media time and nothing behind them. \<open>full_asrt\<close> is an \<open>asrt\<close> box that declares 256
  segment runs and holds all of them (2048 bytes of entries);
  \<open>full_table_bootstrap\<close> is the bootstrap with that box as its only \<open>asrt\<close> box and
  no \<open>afrt\<close> box. \<open>server_names\<close> holds three server entries.
\<close>

definition labelled_bootstrap :: "byte list" where
  "labelled_bootstrap =
     [0, 0, 0, 109, 0x61, 0x62, 0x73, 0x74, 0, 0, 0, 0, 0, 0, 0, 1, 0,
      0, 0, 3, 0xE8, 0, 0, 0, 0, 0, 0, 0, 0, 0, 0, 0, 0, 0, 0, 0, 0,
      0, 0, 1, 0x68, 0x69, 0, 0, 0,
      1, 0, 0, 0, 25, 0x61, 0x73, 0x72, 0x74, 0, 0, 0, 0, 0,
         0, 0, 0, 1, 0, 0, 0, 1, 0, 0, 0, 4,
      1, 0, 0, 0, 37, 0x61, 0x66, 0x72, 0x74, 0, 0, 0, 0, 0, 0, 3, 0xE8, 0,
         0, 0, 0, 1, 0, 0, 0, 1, 0, 0, 0, 0, 0, 0, 0, 0, 0, 0, 9, 0xC4]"

definition truncated_bootstrap :: "byte list" where
  "truncated_bootstrap =
     [0, 0, 0, 29, 0x61, 0x62, 0x73, 0x74, 0, 0, 0, 0, 0, 0, 0, 1, 0,
      0, 0, 3, 0xE8, 0, 0, 0, 0, 0, 0, 0, 0]"

definition full_asrt :: "byte list" where
  "full_asrt =
     [0, 0, 8, 0x11, 0x61, 0x73, 0x72, 0x74, 0, 0, 0, 0, 0, 0, 0, 1, 0] @ replicate 2048 0"

definition full_table_bootstrap :: "byte list" where
  "full_table_bootstrap =
     [0, 0, 8, 0x3D, 0x61, 0x62, 0x73, 0x74, 0, 0, 0, 0, 0, 0, 0, 1, 0,
      0, 0, 3, 0xE8, 0, 0, 0, 0, 0, 0, 0, 0, 0, 0, 0, 0, 0, 0, 0, 0,
      0, 0, 0, 0, 0, 1] @ full_asrt @ [0]"

definition server_names :: "byte list" where
  "server_names = [0x61, 0, 0x62, 0, 0x63, 0]"

text \<open>
  \<open>over_asrt\<close> is an \<open>asrt\<close> box that declares 257 segment runs and holds all of
  them. \<open>two_runs\<close> holds the two segment-run entries \<open>{7, 1}\<close> and \<open>{9, 2}\<close>.
\<close>

definition over_asrt :: "byte list" where
  "over_asrt =
     [0, 0, 8, 0x19, 0x61, 0x73, 0x72, 0x74, 0, 0, 0, 0, 0, 0, 0, 1, 1] @ replicate 2056 0"

definition two_runs :: "byte list" where
  "two_runs = [0, 0, 0, 7, 0, 0, 0, 1, 0, 0, 0, 9, 0, 0, 0, 2]"

section \<open>Properties\<close>

subsection \<open>The fragment indexer\<close>

text \<open>
  C2. For the VOD configuration (timescale 1000, one segment run \<open>{1, 4}\<close>, afrt timescale
  1000, one fragment run \<open>{1, 0, 2500}\<close>, 10 seconds), the indexer called with no
  predecessor yields the chunk with fragment 1, segment 1, timestamp 0, duration 2500 and
  no end-of-stream flag; three further calls, each on the previous chunk, yield a fourth
  chunk with fragment 4, segment 1, timestamp 7500 and the end-of-stream flag.
\<close>

theorem vod_scenario_chunks:
  "\<exists>c1 c2 c3 c4.
     generate_new_chunk vod_sys None vod_stream = Inr (Some c1) \<and>
     generate_new_chunk vod_sys (Some c1) vod_stream = Inr (Some c2) \<and>
     generate_new_chunk vod_sys (Some c2) vod_stream = Inr (Some c3) \<and>
     generate_new_chunk vod_sys (Some c3) vod_stream = Inr (Some c4) \<and>
     frag_num c1 = 1 \<and> seg_num c1 = 1 \<and> timestamp c1 = 0 \<and> duration c1 = 2500 \<and> eof c1 = False \<and>
     frag_num c4 = 4 \<and> seg_num c4 = 1 \<and> timestamp c4 = 7500 \<and> eof c4 = True"
proof -
  let ?c = "\<lambda>n ts e. chunk_new\<lparr> duration := 2500, timestamp := ts, frag_num := n, seg_num := 1,
              eof := e \<rparr>"
  have 1: "generate_new_chunk vod_sys None vod_stream = Inr (Some (?c 1 0 False))"
    by (simp add: generate_new_chunk_def vod_sys_def vod_stream_def new_stream_def
        frun_walk.simps srun_walk.simps chunk_new_def)
  have 2: "generate_new_chunk vod_sys (Some (?c 1 0 False)) vod_stream = Inr (Some (?c 2 2500 False))"
    by (simp add: generate_new_chunk_def vod_sys_def vod_stream_def new_stream_def
        frun_walk.simps srun_walk.simps chunk_new_def)
  have 3: "generate_new_chunk vod_sys (Some (?c 2 2500 False)) vod_stream = Inr (Some (?c 3 5000 False))"
    by (simp add: generate_new_chunk_def vod_sys_def vod_stream_def new_stream_def
        frun_walk.simps srun_walk.simps chunk_new_def)
  have 4: "generate_new_chunk vod_sys (Some (?c 3 5000 False)) vod_stream = Inr (Some (?c 4 7500 True))"
    by (simp add: generate_new_chunk_def vod_sys_def vod_stream_def new_stream_def
        frun_walk.simps srun_walk.simps chunk_new_def)
  show ?thesis
    apply (rule exI [of _ "?c 1 0 False"], rule exI [of _ "?c 2 2500 False"])
    apply (rule exI [of _ "?c 3 5000 False"], rule exI [of _ "?c 4 7500 True"])
    apply (simp only: 1 2 3 4)
    apply (simp add: chunk_new_def)
    done
qed

lemma srun_walk_no_fault:
  "\<forall>i < unat (segment_run_count s). fragments_per_segment (segment_runs s i) \<noteq> 0 \<Longrightarrow>
   \<exists>seg. srun_walk s c i sg acc = Inr seg"
proof (induction s c i sg acc rule: srun_walk.induct)
  case (1 s c i segment fragments_accum)
  show ?case
  proof (cases "i < unat (segment_run_count s)")
    case False
    then show ?thesis by (simp add: srun_walk.simps)
  next
    case True
    then have nz: "fragments_per_segment (segment_runs s i) \<noteq> 0" using "1.prems" by simp
    show ?thesis
      apply (subst srun_walk.simps)
      using True nz "1.IH" "1.prems"
      apply (simp add: Let_def)
      done
  qed
qed

lemma frun_walk_last_marker:
  "e < unat (fragment_run_count s) \<Longrightarrow> fragment_duration (fragment_runs s e) = 0 \<Longrightarrow>
   e = unat (fragment_run_count s) - 1 \<Longrightarrow> frun_walk s c e = None"
  by (subst frun_walk.simps) simp

text \<open>
  The walk fails when it arrives at a zero-duration entry that is the last entry of the
  table: it does so from entry \<open>e\<close> when every entry from \<open>e\<close> up to the last is a run
  (not a marker) that does not hold the wanted fragment. The wanted fragment number is
  not 0 (for 0 the walk first derives the number from the timestamp).
\<close>

lemma frun_walk_reaches_last:
  assumes last: "k + 1 = unat (fragment_run_count s)"
    and marker: "fragment_duration (fragment_runs s k) = 0"
    and c: "frag_num c \<noteq> 0"
  shows "e \<le> k \<Longrightarrow>
         \<forall>i. e \<le> i \<and> i < k \<longrightarrow>
            fragment_duration (fragment_runs s i) \<noteq> 0 \<and>
            \<not> (fragment_number_start (fragment_runs s i) \<le> frag_num c \<and>
               frag_num c < fragment_number_start (fragment_runs s (i + 1))) \<Longrightarrow>
         frun_walk s c e = None"
proof (induction "k - e" arbitrary: e)
  case 0
  then have "e = k" by simp
  then show ?case using last marker by (subst frun_walk.simps) auto
next
  case (Suc d)
  then have lt: "e < k" by simp
  have step: "frun_walk s c (e + 1) = None"
    using Suc.hyps(2) lt Suc.prems(2) by (intro Suc.hyps(1)) auto
  have ne: "fragment_duration (fragment_runs s e) \<noteq> 0"
    and nm: "\<not> (fragment_number_start (fragment_runs s e) \<le> frag_num c \<and>
               frag_num c < fragment_number_start (fragment_runs s (e + 1)))"
    using Suc.prems(2) lt by auto
  show ?case
    apply (subst frun_walk.simps)
    using lt last ne nm c step by (auto simp: Let_def)
qed

lemma generate_none:
  "frun_walk s (chunk_new\<lparr> timestamp := timestamp l + duration l, frag_num := frag_num l + 1 \<rparr>)
     (if live sys then 0 else unat (frun_entry l)) = None \<Longrightarrow>
   generate_new_chunk sys (Some l) s = Inr None"
  by (simp add: generate_new_chunk_def)

text \<open>
  C3. With the fragment-run table \<open>[{1, 0, 2000}, m, {10, 50000, 2000}]\<close>, where \<open>m\<close> is a
  zero-duration marker, and the chunk (fragment 1, timestamp 0, duration 2000) as the last
  chunk: when the fragment number of \<open>m\<close> is at most 2 (the marker follows fragment 1
  directly) the indexer skips the marker and yields the chunk (fragment 10, timestamp
  50000, duration 2000), and with the table cut after the marker it returns no chunk; when
  the fragment number of \<open>m\<close> is above 2 the walk stops at the first run and the indexer
  yields the chunk (fragment 2, timestamp 2000, duration 2000), also when the marker is
  the last entry. In any table the indexer returns no chunk when the walk arrives at a
  zero-duration entry that is the last entry: when it starts there, or when every entry
  from the start up to it is a run that does not hold the wanted fragment. The stream's
  other fields are arbitrary, as long as the divisions by the afrt timescale and the
  fragments per segment are defined.
\<close>

theorem discontinuity_skipped:
  assumes m: "fragment_duration m = 0"
    and ts: "afrt_timescale s \<noteq> 0"
    and fps: "\<forall>i < unat (segment_run_count s). fragments_per_segment (segment_runs s i) \<noteq> 0"
    and l: "frag_num l = 1" "timestamp l = 0" "duration l = 2000" "frun_entry l = 0"
  shows "(fragment_number_start m \<le> 2 \<longrightarrow>
            (\<exists>c. generate_new_chunk sys (Some l)
                   (s\<lparr> fragment_runs := discontinuity_runs m, fragment_run_count := 3 \<rparr>) = Inr (Some c) \<and>
                 frag_num c = 10 \<and> timestamp c = 50000 \<and> duration c = 2000) \<and>
            generate_new_chunk sys (Some l)
                   (s\<lparr> fragment_runs := discontinuity_runs m, fragment_run_count := 2 \<rparr>) = Inr None) \<and>
         (2 < fragment_number_start m \<longrightarrow>
            (\<exists>c. generate_new_chunk sys (Some l)
                   (s\<lparr> fragment_runs := discontinuity_runs m, fragment_run_count := 3 \<rparr>) = Inr (Some c) \<and>
                 frag_num c = 2 \<and> timestamp c = 2000 \<and> duration c = 2000) \<and>
            (\<exists>c. generate_new_chunk sys (Some l)
                   (s\<lparr> fragment_runs := discontinuity_runs m, fragment_run_count := 2 \<rparr>) = Inr (Some c) \<and>
                 frag_num c = 2 \<and> timestamp c = 2000 \<and> duration c = 2000)) \<and>
         (\<forall>s' l' k. k + 1 = unat (fragment_run_count s') \<and>
                 fragment_duration (fragment_runs s' k) = 0 \<and>
                 frag_num l' + 1 \<noteq> 0 \<and>
                 (if live sys then 0 else unat (frun_entry l')) \<le> k \<and>
                 (\<forall>i. (if live sys then 0 else unat (frun_entry l')) \<le> i \<and> i < k \<longrightarrow>
                    fragment_duration (fragment_runs s' i) \<noteq> 0 \<and>
                    \<not> (fragment_number_start (fragment_runs s' i) \<le> frag_num l' + 1 \<and>
                       frag_num l' + 1 < fragment_number_start (fragment_runs s' (i + 1)))) \<longrightarrow>
                 generate_new_chunk sys (Some l') s' = Inr None) \<and>
         (\<forall>s' l'. \<not> live sys \<and> unat (frun_entry l') + 1 = unat (fragment_run_count s') \<and>
                 fragment_duration (fragment_runs s' (unat (frun_entry l'))) = 0 \<longrightarrow>
                 generate_new_chunk sys (Some l') s' = Inr None) \<and>
         (\<forall>s'. \<not> live sys \<and> fragment_run_count s' = 1 \<and>
                 fragment_duration (fragment_runs s' 0) = 0 \<longrightarrow>
                 generate_new_chunk sys None s' = Inr None)"
proof -
  let ?s3 = "s\<lparr> fragment_runs := discontinuity_runs m, fragment_run_count := 3 \<rparr>"
  let ?s2 = "s\<lparr> fragment_runs := discontinuity_runs m, fragment_run_count := 2 \<rparr>"
  let ?c0 = "chunk_new\<lparr> timestamp := 2000, frag_num := 2 \<rparr>"
  let ?c1 = "chunk_new\<lparr> frag_num := 10, duration := 2000, timestamp := 50000 \<rparr>"
  let ?c2 = "chunk_new\<lparr> frag_num := 2, duration := 2000, timestamp := 2000 \<rparr>"
  have fps3: "\<forall>i < unat (segment_run_count ?s3). fragments_per_segment (segment_runs ?s3 i) \<noteq> 0"
    using fps by simp
  have fps2: "\<forall>i < unat (segment_run_count ?s2). fragments_per_segment (segment_runs ?s2 i) \<noteq> 0"
    using fps by simp
  have a: "(\<exists>c. generate_new_chunk sys (Some l) ?s3 = Inr (Some c) \<and>
              frag_num c = 10 \<and> timestamp c = 50000 \<and> duration c = 2000) \<and>
           generate_new_chunk sys (Some l) ?s2 = Inr None"
    if le: "fragment_number_start m \<le> 2"
  proof -
    have nlt: "\<not> 2 < fragment_number_start m" using le by simp
    have w3: "frun_walk ?s3 ?c0 0 = Some (?c1, 2)"
      apply (subst frun_walk.simps)
      apply (simp add: discontinuity_runs_def l nlt chunk_new_def)
      apply (subst frun_walk.simps)
      apply (simp add: discontinuity_runs_def l m chunk_new_def)
      done
    have w2: "frun_walk ?s2 ?c0 0 = None"
      apply (subst frun_walk.simps)
      apply (simp add: discontinuity_runs_def l nlt chunk_new_def)
      apply (subst frun_walk.simps)
      apply (simp add: discontinuity_runs_def l m chunk_new_def)
      done
    obtain seg where seg: "srun_walk ?s3 ?c1 0 0 10 = Inr seg"
      using srun_walk_no_fault [OF fps3] by blast
    have "\<exists>c. generate_new_chunk sys (Some l) ?s3 = Inr (Some c) \<and>
              frag_num c = 10 \<and> timestamp c = 50000 \<and> duration c = 2000"
      using seg ts by (simp add: generate_new_chunk_def w3 l Let_def)
    moreover have "generate_new_chunk sys (Some l) ?s2 = Inr None"
      by (simp add: generate_new_chunk_def w2 l Let_def)
    ultimately show ?thesis by blast
  qed
  have b: "(\<exists>c. generate_new_chunk sys (Some l) ?s3 = Inr (Some c) \<and>
              frag_num c = 2 \<and> timestamp c = 2000 \<and> duration c = 2000) \<and>
           (\<exists>c. generate_new_chunk sys (Some l) ?s2 = Inr (Some c) \<and>
              frag_num c = 2 \<and> timestamp c = 2000 \<and> duration c = 2000)"
    if gt: "2 < fragment_number_start m"
  proof -
    have w3: "frun_walk ?s3 ?c0 0 = Some (?c2, 0)"
      apply (subst frun_walk.simps)
      apply (simp add: discontinuity_runs_def l gt chunk_new_def)
      done
    have w2: "frun_walk ?s2 ?c0 0 = Some (?c2, 0)"
      apply (subst frun_walk.simps)
      apply (simp add: discontinuity_runs_def l gt chunk_new_def)
      done
    obtain seg3 where seg3: "srun_walk ?s3 ?c2 0 0 2 = Inr seg3"
      using srun_walk_no_fault [OF fps3] by blast
    obtain seg2 where seg2: "srun_walk ?s2 ?c2 0 0 2 = Inr seg2"
      using srun_walk_no_fault [OF fps2] by blast
    have "\<exists>c. generate_new_chunk sys (Some l) ?s3 = Inr (Some c) \<and>
              frag_num c = 2 \<and> timestamp c = 2000 \<and> duration c = 2000"
      using seg3 ts by (simp add: generate_new_chunk_def w3 l Let_def)
    moreover have "\<exists>c. generate_new_chunk sys (Some l) ?s2 = Inr (Some c) \<and>
              frag_num c = 2 \<and> timestamp c = 2000 \<and> duration c = 2000"
      using seg2 ts by (simp add: generate_new_chunk_def w2 l Let_def)
    ultimately show ?thesis by blast
  qed
  have e: "generate_new_chunk sys (Some l') s' = Inr None"
    if "k + 1 = unat (fragment_run_count s')" "fragment_duration (fragment_runs s' k) = 0"
       "frag_num l' + 1 \<noteq> 0" "(if live sys then 0 else unat (frun_entry l')) \<le> k"
       "\<forall>i. (if live sys then 0 else unat (frun_entry l')) \<le> i \<and> i < k \<longrightarrow>
            fragment_duration (fragment_runs s' i) \<noteq> 0 \<and>
            \<not> (fragment_number_start (fragment_runs s' i) \<le> frag_num l' + 1 \<and>
               frag_num l' + 1 < fragment_number_start (fragment_runs s' (i + 1)))" for s' l' k
  proof -
    have "frun_walk s' (chunk_new\<lparr> timestamp := timestamp l' + duration l',
            frag_num := frag_num l' + 1 \<rparr>) (if live sys then 0 else unat (frun_entry l')) = None"
      using that by (intro frun_walk_reaches_last [where k = k]) simp_all
    then show ?thesis by (rule generate_none)
  qed
  have c: "generate_new_chunk sys (Some l') s' = Inr None"
    if "\<not> live sys" "unat (frun_entry l') + 1 = unat (fragment_run_count s')"
       "fragment_duration (fragment_runs s' (unat (frun_entry l'))) = 0" for s' l'
  proof -
    have "frun_walk s' (chunk_new\<lparr> timestamp := timestamp l' + duration l',
            frag_num := frag_num l' + 1 \<rparr>) (unat (frun_entry l')) = None"
      using that by (intro frun_walk_last_marker) auto
    then show ?thesis using that by (simp add: generate_new_chunk_def)
  qed
  have d: "generate_new_chunk sys None s' = Inr None"
    if "\<not> live sys" "fragment_run_count s' = 1" "fragment_duration (fragment_runs s' 0) = 0" for s'
  proof -
    have "frun_walk s' (chunk_new\<lparr> timestamp := fragment_timestamp (fragment_runs s' 0),
            frag_num := fragment_number_start (fragment_runs s' 0) \<rparr>) 0 = None"
      using that by (intro frun_walk_last_marker) auto
    then show ?thesis using that by (simp add: generate_new_chunk_def)
  qed
  show ?thesis using a b c d e by blast
qed

text \<open>The VOD stream with the all-zero marker in the table.\<close>

theorem discontinuity_skipped_witness:
  "(\<exists>c. generate_new_chunk vod_sys (Some (chunk_new\<lparr> frag_num := 1, duration := 2000 \<rparr>))
          (vod_stream\<lparr> fragment_runs := discontinuity_runs zero_marker, fragment_run_count := 3 \<rparr>)
        = Inr (Some c) \<and> frag_num c = 10 \<and> timestamp c = 50000 \<and> duration c = 2000) \<and>
   generate_new_chunk vod_sys (Some (chunk_new\<lparr> frag_num := 1, duration := 2000 \<rparr>))
          (vod_stream\<lparr> fragment_runs := discontinuity_runs zero_marker, fragment_run_count := 2 \<rparr>)
        = Inr None"
  using discontinuity_skipped [of zero_marker vod_stream "chunk_new\<lparr> frag_num := 1, duration := 2000 \<rparr>" vod_sys]
  by (simp add: zero_marker_def vod_stream_def new_stream_def chunk_new_def)

text \<open>
  Without the condition on the marker's fragment number the statement fails: with the
  marker \<open>{5, ts = 8000, dur = 0}\<close> in the table the next chunk after fragment 1 is
  fragment 2 at timestamp 2000, not fragment 10, and the indexer yields that chunk also
  when the marker is the last entry. And a table that ends with a zero-duration entry
  does not make the indexer fail as long as the walk does not arrive there: the first
  chunk of \<open>end_marker_runs\<close> is fragment 1.
\<close>

theorem marker_not_reached:
  "fragment_duration numbered_marker = 0 \<and>
   generate_new_chunk vod_sys (Some (chunk_new\<lparr> frag_num := 1, duration := 2000 \<rparr>))
     (vod_stream\<lparr> fragment_runs := discontinuity_runs numbered_marker, fragment_run_count := 3 \<rparr>) =
   Inr (Some (chunk_new\<lparr> frag_num := 2, duration := 2000, timestamp := 2000, seg_num := 1 \<rparr>)) \<and>
   generate_new_chunk vod_sys (Some (chunk_new\<lparr> frag_num := 1, duration := 2000 \<rparr>))
     (vod_stream\<lparr> fragment_runs := discontinuity_runs numbered_marker, fragment_run_count := 2 \<rparr>) =
   Inr (Some (chunk_new\<lparr> frag_num := 2, duration := 2000, timestamp := 2000, seg_num := 1 \<rparr>)) \<and>
   fragment_duration (end_marker_runs 2) = 0 \<and>
   generate_new_chunk vod_sys None
     (vod_stream\<lparr> fragment_runs := end_marker_runs, fragment_run_count := 3 \<rparr>) =
   Inr (Some (chunk_new\<lparr> frag_num := 1, duration := 2000, seg_num := 1 \<rparr>))"
  by (simp add: numbered_marker_def end_marker_runs_def discontinuity_runs_def vod_sys_def
      vod_stream_def new_stream_def chunk_new_def generate_new_chunk_def frun_walk.simps
      srun_walk.simps)

subsection \<open>The FLV header\<close>

lemma length_flv_header: "length flv_header = 13"
  by (simp add: flv_header_def)

lemma send_flv_header_read:
  assumes k: "unat (flv_header_bytes_sent p_sys) = k" "k \<le> 13"
  shows "\<exists>t. send_flv_header p_sys n False =
           Inr (take (unat t) (drop k flv_header), t,
                p_sys\<lparr> flv_header_bytes_sent := flv_header_bytes_sent p_sys + t \<rparr>) \<and>
         unat t = min (unat n) (13 - k) \<and>
         unat (flv_header_bytes_sent p_sys + t) = k + unat t \<and>
         (n - t \<noteq> 0 \<longrightarrow> k + unat t = 13) \<and> k + unat t \<le> 13"
proof -
  let ?sent = "flv_header_bytes_sent p_sys"
  have le: "?sent \<le> 13" using k by (simp add: word_le_nat_alt)
  have u: "unat (13 - ?sent) = 13 - k" using le k by (simp add: unat_sub)
  let ?t = "if 13 - ?sent < n then 13 - ?sent else n"
  have ut: "unat ?t = min (unat n) (13 - k)"
    using u by (auto simp: word_less_nat_alt min_def)
  have bound: "k + unat ?t \<le> 13" using ut k by (cases "unat n \<le> 13 - k") auto
  have sum: "unat (?sent + ?t) = k + unat ?t"
  proof -
    have "k + unat ?t < 2 ^ 32" using bound by simp
    then show ?thesis using k by (simp add: unat_add_lem [THEN iffD1])
  qed
  have rest: "n - ?t \<noteq> 0 \<longrightarrow> k + unat ?t = 13"
    using u k by (auto simp: word_less_nat_alt)
  have "send_flv_header p_sys n False =
           Inr (take (unat ?t) (drop k flv_header), ?t, p_sys\<lparr> flv_header_bytes_sent := ?sent + ?t \<rparr>)"
  proof (cases "?t = 0")
    case True
    then show ?thesis by (simp add: send_flv_header_def Let_def)
  next
    case False
    show ?thesis using False k bound by (simp add: send_flv_header_def Let_def length_flv_header)
  qed
  then show ?thesis using ut sum rest bound by blast
qed

lemma Read_loop_zero: "Read_loop env fuel sys stream 0 e = Some (Inr ([], stream))"
  by (cases fuel) simp_all

text \<open>
  One call of \<open>Read\<close> that returns, from a state in which \<open>k\<close> header bytes have been
  sent: the header part is the next \<open>j\<close> header bytes, and a payload byte is stored only
  when the header is complete.
\<close>

lemma Read_header:
  assumes k: "unat (flv_header_bytes_sent p_sys) = k" "k \<le> 13"
    and r: "Read env fuel p_sys n = Some (Inr ((hdr, payload), p_sys'))"
  shows "\<exists>j. hdr = take j (drop k flv_header) \<and> k + j \<le> 13 \<and>
              unat (flv_header_bytes_sent p_sys') = k + j \<and>
              (payload \<noteq> [] \<longrightarrow> k + j = 13) \<and>
              (hds_streams p_sys \<noteq> [] \<longrightarrow> j = min (unat n) (13 - k)) \<and>
              (hds_streams p_sys' = [] \<longleftrightarrow> hds_streams p_sys = [])"
proof (cases "hds_streams p_sys")
  case Nil
  then have "hdr = [] \<and> payload = [] \<and> p_sys' = p_sys" using r by (simp add: Read_def)
  then show ?thesis using k Nil by (intro exI [of _ 0]) simp
next
  case (Cons stream others)
  obtain t where t: "send_flv_header p_sys n False =
           Inr (take (unat t) (drop k flv_header), t,
                p_sys\<lparr> flv_header_bytes_sent := flv_header_bytes_sent p_sys + t \<rparr>)"
      "unat t = min (unat n) (13 - k)"
      "unat (flv_header_bytes_sent p_sys + t) = k + unat t"
      "n - t \<noteq> 0 \<longrightarrow> k + unat t = 13" "k + unat t \<le> 13"
    using send_flv_header_read [OF k] by blast
  let ?sys1 = "p_sys\<lparr> flv_header_bytes_sent := flv_header_bytes_sent p_sys + t \<rparr>"
  obtain stream' where l: "Read_loop env fuel ?sys1 stream (n - t) False = Some (Inr (payload, stream'))"
    and h: "hdr = take (unat t) (drop k flv_header)"
    and s': "p_sys' = ?sys1\<lparr> hds_streams := stream' # others \<rparr>"
    using r Cons t(1) by (auto simp: Read_def split: option.splits sum.splits)
  have p: "payload \<noteq> [] \<longrightarrow> k + unat t = 13"
  proof
    assume ne: "payload \<noteq> []"
    have "n - t \<noteq> 0"
    proof
      assume "n - t = 0"
      then show False using l ne by (simp add: Read_loop_zero)
    qed
    then show "k + unat t = 13" using t(4) by simp
  qed
  show ?thesis
    apply (rule exI [of _ "unat t"])
    using h s' t(2,3,5) p k Cons by simp
qed

lemma delivered_Cons: "delivered ((hdr, payload) # outs) = hdr @ payload @ delivered outs"
  by (simp add: delivered_def)

lemma Reads_header:
  assumes "unat (flv_header_bytes_sent p_sys) = k" "k \<le> 13"
    and "Reads fuel p_sys calls = Some (Inr (outs, p_sys'))"
  shows "\<exists>j. concat (map fst outs) = take j (drop k flv_header) \<and> k + j \<le> 13 \<and>
             unat (flv_header_bytes_sent p_sys') = k + j \<and>
             (\<forall>i<length outs. snd (outs ! i) \<noteq> [] \<longrightarrow>
                 concat (map fst (take (Suc i) outs)) = drop k flv_header) \<and>
             take (13 - k) (delivered outs) = take (length (delivered outs)) (drop k flv_header) \<and>
             (hds_streams p_sys \<noteq> [] \<longrightarrow>
                 min (13 - k) (sum_list (map (\<lambda>c. unat (snd c)) calls)) \<le> length (delivered outs))"
  using assms
proof (induction calls arbitrary: p_sys k outs)
  case Nil
  then have "outs = []" "p_sys' = p_sys" by simp_all
  then show ?case using Nil by (intro exI [of _ 0]) (simp add: delivered_def)
next
  case (Cons call calls)
  obtain env n where call: "call = (env, n)" by (cases call)
  let ?X = "drop k flv_header"
  have lenX: "length ?X = 13 - k" by (simp add: length_flv_header)
  obtain hdr payload sys1 outs' where
    r: "Read env fuel p_sys n = Some (Inr ((hdr, payload), sys1))" and
    rs: "Reads fuel sys1 calls = Some (Inr (outs', p_sys'))" and
    outs: "outs = (hdr, payload) # outs'"
    using Cons.prems(3) call by (auto split: option.splits sum.splits)
  obtain j1 where j1: "hdr = take j1 ?X" "k + j1 \<le> 13"
      "unat (flv_header_bytes_sent sys1) = k + j1" "payload \<noteq> [] \<longrightarrow> k + j1 = 13"
      "hds_streams p_sys \<noteq> [] \<longrightarrow> j1 = min (unat n) (13 - k)"
      "hds_streams sys1 = [] \<longleftrightarrow> hds_streams p_sys = []"
    using Read_header [OF Cons.prems(1,2) r] by blast
  have lenh: "length hdr = j1" using j1(1,2) lenX by simp
  obtain j2 where j2: "concat (map fst outs') = take j2 (drop (k + j1) flv_header)"
      "k + j1 + j2 \<le> 13" "unat (flv_header_bytes_sent p_sys') = k + j1 + j2"
      "\<forall>i<length outs'. snd (outs' ! i) \<noteq> [] \<longrightarrow>
          concat (map fst (take (Suc i) outs')) = drop (k + j1) flv_header"
      "take (13 - (k + j1)) (delivered outs') =
         take (length (delivered outs')) (drop (k + j1) flv_header)"
      "hds_streams sys1 \<noteq> [] \<longrightarrow>
         min (13 - (k + j1)) (sum_list (map (\<lambda>c. unat (snd c)) calls)) \<le> length (delivered outs')"
    using Cons.IH [OF j1(3) j1(2) rs] by blast
  have dd: "drop (k + j1) flv_header = drop j1 ?X" by (simp add: add.commute)
  have a: "concat (map fst outs) = take (j1 + j2) ?X"
    using outs j1(1) j2(1) dd by (simp add: take_add)
  have b: "\<forall>i<length outs. snd (outs ! i) \<noteq> [] \<longrightarrow>
             concat (map fst (take (Suc i) outs)) = ?X"
  proof (intro allI impI)
    fix i assume i: "i < length outs" and ne: "snd (outs ! i) \<noteq> []"
    show "concat (map fst (take (Suc i) outs)) = ?X"
    proof (cases i)
      case 0
      then have "payload \<noteq> []" using ne outs by simp
      then have "j1 = length ?X" using j1(4) lenX by simp
      then have "hdr = ?X" using j1(1) by simp
      then show ?thesis using 0 outs by simp
    next
      case (Suc i')
      then have e: "concat (map fst (take (Suc i') outs')) = drop j1 ?X"
        using i ne outs j2(4) dd by simp
      have "concat (map fst (take (Suc i) outs)) = hdr @ concat (map fst (take (Suc i') outs'))"
        using Suc outs by simp
      also have "\<dots> = take j1 ?X @ drop j1 ?X" using e j1(1) by (simp only:)
      also have "\<dots> = ?X" by (rule append_take_drop_id)
      finally show ?thesis .
    qed
  qed
  have c: "take (13 - k) (delivered outs) = take (length (delivered outs)) ?X"
  proof (cases "payload = []")
    case True
    have "take (13 - k) (delivered outs) = hdr @ take (13 - k - j1) (delivered outs')"
      using outs True lenh j1(2) by (simp add: delivered_Cons)
    also have "\<dots> = take j1 ?X @ take (length (delivered outs')) (drop j1 ?X)"
      using j2(5) j1(1) dd by (simp add: diff_diff_left)
    also have "\<dots> = take (j1 + length (delivered outs')) ?X"
      by (simp add: take_add)
    finally show ?thesis using outs True lenh by (simp add: delivered_Cons)
  next
    case False
    then have "j1 = length ?X" using j1(4) lenX by simp
    then have "hdr = ?X" using j1(1) by simp
    then show ?thesis using outs Cons.prems(2) by (simp add: delivered_Cons length_flv_header)
  qed
  have d: "hds_streams p_sys \<noteq> [] \<longrightarrow>
             min (13 - k) (sum_list (map (\<lambda>c. unat (snd c)) (call # calls))) \<le> length (delivered outs)"
  proof
    assume ne: "hds_streams p_sys \<noteq> []"
    then have 1: "j1 = min (unat n) (13 - k)" using j1(5) by simp
    have 2: "min (13 - (k + j1)) (sum_list (map (\<lambda>c. unat (snd c)) calls)) \<le> length (delivered outs')"
      using ne j1(6) j2(6) by simp
    have 3: "length (delivered outs) = j1 + length payload + length (delivered outs')"
      using outs lenh by (simp add: delivered_Cons)
    have 4: "sum_list (map (\<lambda>c. unat (snd c)) (call # calls)) =
             unat n + sum_list (map (\<lambda>c. unat (snd c)) calls)"
      using call by simp
    show "min (13 - k) (sum_list (map (\<lambda>c. unat (snd c)) (call # calls))) \<le> length (delivered outs)"
      unfolding 3 4 using 1 2 by arith
  qed
  show ?case
    apply (rule exI [of _ "j1 + j2"])
    using a b c d j2(2,3) by (simp add: add.assoc)
qed

text \<open>
  Calls that ask for no more than what is left of the header return, whatever the fuel
  and whatever the other threads do: the loop of \<open>Read\<close> is not entered.
\<close>

lemma Read_header_only:
  assumes k: "unat (flv_header_bytes_sent p_sys) = k" and n: "k + unat n \<le> 13"
    and st: "hds_streams p_sys \<noteq> []"
  shows "Read env fuel p_sys n =
           Some (Inr ((take (unat n) (drop k flv_header), []),
                      p_sys\<lparr> flv_header_bytes_sent := flv_header_bytes_sent p_sys + n \<rparr>)) \<and>
         unat (flv_header_bytes_sent p_sys + n) = k + unat n"
proof -
  obtain stream others where so: "hds_streams p_sys = stream # others"
    using st by (cases "hds_streams p_sys") auto
  have k13: "k \<le> 13" using n by simp
  obtain t where t: "send_flv_header p_sys n False =
           Inr (take (unat t) (drop k flv_header), t,
                p_sys\<lparr> flv_header_bytes_sent := flv_header_bytes_sent p_sys + t \<rparr>)"
      "unat t = min (unat n) (13 - k)"
      "unat (flv_header_bytes_sent p_sys + t) = k + unat t"
    using send_flv_header_read [OF k k13] by blast
  have "unat t = unat n" using t(2) n by simp
  then have tn: "t = n" by (simp add: word_eq_iff_unsigned [where ?'a = nat])
  show ?thesis using t(1,3) so by (simp add: Read_def tn Read_loop_zero)
qed

lemma Reads_header_only:
  assumes "unat (flv_header_bytes_sent p_sys) = k"
    and "k + sum_list (map (\<lambda>c. unat (snd c)) calls) \<le> 13"
    and "hds_streams p_sys \<noteq> []"
  shows "\<exists>outs p_sys'. Reads fuel p_sys calls = Some (Inr (outs, p_sys')) \<and>
           delivered outs = take (sum_list (map (\<lambda>c. unat (snd c)) calls)) (drop k flv_header) \<and>
           (\<forall>out \<in> set outs. snd out = [])"
  using assms
proof (induction calls arbitrary: p_sys k)
  case Nil
  then show ?case by (simp add: delivered_def)
next
  case (Cons call calls)
  obtain env n where call: "call = (env, n)" by (cases call)
  let ?sys1 = "p_sys\<lparr> flv_header_bytes_sent := flv_header_bytes_sent p_sys + n \<rparr>"
  let ?m = "sum_list (map (\<lambda>c. unat (snd c)) calls)"
  have kn: "k + unat n \<le> 13" using Cons.prems(2) call by simp
  have r: "Read env fuel p_sys n = Some (Inr ((take (unat n) (drop k flv_header), []), ?sys1))"
    and u: "unat (flv_header_bytes_sent ?sys1) = k + unat n"
    using Read_header_only [OF Cons.prems(1) kn Cons.prems(3)] by simp_all
  have 2: "k + unat n + ?m \<le> 13" using Cons.prems(2) call by simp
  have 3: "hds_streams ?sys1 \<noteq> []" using Cons.prems(3) by simp
  obtain outs p_sys' where
    rs: "Reads fuel ?sys1 calls = Some (Inr (outs, p_sys'))" and
    d: "delivered outs = take ?m (drop (k + unat n) flv_header)" and
    e: "\<forall>out \<in> set outs. snd out = []"
    using Cons.IH [OF u 2 3] by blast
  have "Reads fuel p_sys (call # calls) =
          Some (Inr ((take (unat n) (drop k flv_header), []) # outs, p_sys'))"
    using r rs call by simp
  moreover have "delivered ((take (unat n) (drop k flv_header), []) # outs) =
          take (unat n + ?m) (drop k flv_header)"
    using d by (simp add: delivered_Cons take_add add.commute)
  ultimately show ?case using e call by auto
qed

text \<open>
  A call that finds the bytes it asks for in the chunk at the head of the chain (the chunk
  is downloaded, holds more than the bytes asked for and, in VOD mode, is the last chunk
  or covers the lead time, so that no chunk is generated) returns them after one call of
  \<open>read_chunk_data\<close>.
\<close>

lemma mem_read_length: "mem_read m a k = Inr bs \<Longrightarrow> length bs = k"
  by (auto simp: mem_read_def split: option.splits if_splits)

lemma copy_mdat_part:
  assumes pos: "mdat_pos c < mdat_len c" and i: "i < mdat_len c - mdat_pos c"
    and rd: "mem_read (data c) (mdat_data c + ucast (mdat_pos c)) (unat i) = Inr bs"
  shows "copy_mdat c i = Inr (bs, c\<lparr> mdat_pos := mdat_pos c + i \<rparr>, 0)"
    and "mdat_pos c + i < mdat_len c"
proof -
  show "copy_mdat c i = Inr (bs, c\<lparr> mdat_pos := mdat_pos c + i \<rparr>, 0)"
    using pos i rd by (simp add: copy_mdat_def Let_def)
  have le: "mdat_pos c \<le> mdat_len c" using pos by simp
  have d: "unat (mdat_len c - mdat_pos c) = unat (mdat_len c) - unat (mdat_pos c)"
    using le by (rule unat_sub)
  have lt: "unat (mdat_pos c) + unat i < unat (mdat_len c)"
    using i d by (simp add: word_less_nat_alt)
  have "unat (mdat_len c) < 2 ^ LENGTH(32)" by (rule unsigned_less)
  then have "unat (mdat_pos c) + unat i < 2 ^ LENGTH(32)" using lt by simp
  then have "unat (mdat_pos c + i) = unat (mdat_pos c) + unat i"
    by (rule unat_add_lem [THEN iffD1])
  then show "mdat_pos c + i < mdat_len c" using lt by (simp add: word_less_nat_alt)
qed

lemma drain_part:
  assumes ch: "chain r = c # rest" and dt: "data c \<noteq> None" and nf: "\<not> failed c"
    and len: "read_len r = i" "i \<noteq> 0"
    and pos: "mdat_pos c < mdat_len c" and i: "i < mdat_len c - mdat_pos c"
    and rd: "mem_read (data c) (mdat_data c + ucast (mdat_pos c)) (unat i) = Inr bs"
  shows "drain sys stream r =
           Inr (r\<lparr> buffer := buffer r @ bs, read_len := 0,
                   chain := c\<lparr> mdat_pos := mdat_pos c + i \<rparr> # rest \<rparr>)"
proof -
  note cp = copy_mdat_part [OF pos i rd]
  have nle: "\<not> mdat_len c \<le> mdat_pos c" using pos by simp
  have nle': "\<not> mdat_len c \<le> mdat_pos c + i" using cp(2) by simp
  let ?r1 = "r\<lparr> buffer := buffer r @ bs, read_len := 0,
                 chain := c\<lparr> mdat_pos := mdat_pos c + i \<rparr> # rest \<rparr>"
  have 2: "drain sys stream ?r1 = Inr ?r1"
    by (subst drain.simps) simp
  obtain b where b: "data c = Some b" using dt by auto
  show ?thesis
    apply (subst drain.simps)
    using ch b nf len nle nle' cp(1) 2 by (simp add: Let_def)
qed

lemma read_chunk_data_part:
  assumes ch: "chunks stream = c # rest" and dt: "data c \<noteq> None" and nf: "\<not> failed c"
    and len: "i \<noteq> 0"
    and pos: "mdat_pos c < mdat_len c" and i: "i < mdat_len c - mdat_pos c"
    and rd: "mem_read (data c) (mdat_data c + ucast (mdat_pos c)) (unat i) = Inr bs"
    and lead: "live sys \<or> (afrt_timescale stream \<noteq> 0 \<and>
                 (eof c \<or> download_leadtime stream \<le> duration c div ucast (afrt_timescale stream)))"
  shows "\<exists>stream'. read_chunk_data (Suc n) sys i stream = Some (Inr (bs, stream', False)) \<and>
           chunks stream' = c\<lparr> mdat_pos := mdat_pos c + i \<rparr> # rest"
proof -
  let ?r0 = "\<lparr> buffer = [], read_len = i, passed = [], chain = chunks stream,
              eof_flag = False, dl_flag = False, freed = 0 \<rparr>"
  let ?c' = "c\<lparr> mdat_pos := mdat_pos c + i \<rparr>"
  have d: "drain sys stream ?r0 =
           Inr (?r0\<lparr> buffer := buffer ?r0 @ bs, read_len := 0, chain := ?c' # rest \<rparr>)"
    using ch dt nf len pos i rd by (intro drain_part) simp_all
  have g: "\<not> (eof c \<and> mdat_len c \<le> mdat_pos c)" using pos by (auto simp: not_le)
  show ?thesis
  proof (cases "live sys")
    case True
    then show ?thesis using ch g d by (simp add: read_chunk_data_def)
  next
    case False
    then have l: "afrt_timescale stream \<noteq> 0"
        "eof c \<or> download_leadtime stream \<le> duration c div ucast (afrt_timescale stream)"
      using lead by simp_all
    let ?s1 = "stream\<lparr> chunks := ?c' # rest,
                 chunks_livereadpos := cursor_after_free 0 (chunks_livereadpos stream),
                 chunks_downloadpos := cursor_after_free 0 (chunks_downloadpos stream) \<rparr>"
    have ll: "lead_loop (Suc n) sys ?s1 (?c' # rest) 0 (duration ?c') False =
                Some (Inr (?c' # rest, False))"
    proof (cases "eof c")
      case True
      then show ?thesis using l(1) by simp
    next
      case False
      then have "\<not> duration c div ucast (afrt_timescale stream) < download_leadtime stream"
        using l(2) by (simp add: not_less)
      then show ?thesis using l(1) by simp
    qed
    have "read_chunk_data (Suc n) sys i stream = Some (Inr (bs, ?s1\<lparr> chunks := ?c' # rest \<rparr>, False))"
      using False ch g d ll by (simp add: read_chunk_data_def Let_def del: lead_loop.simps)
    then show ?thesis by simp
  qed
qed

lemma Read_loop_part:
  assumes ch: "chunks (env n stream) = c # rest" and dt: "data c \<noteq> None" and nf: "\<not> failed c"
    and len: "i \<noteq> 0"
    and pos: "mdat_pos c < mdat_len c" and i: "i < mdat_len c - mdat_pos c"
    and rd: "mem_read (data c) (mdat_data c + ucast (mdat_pos c)) (unat i) = Inr bs"
    and lead: "live sys \<or> (afrt_timescale (env n stream) \<noteq> 0 \<and>
                 (eof c \<or> download_leadtime (env n stream) \<le>
                           duration c div ucast (afrt_timescale (env n stream))))"
  shows "\<exists>stream'. Read_loop env (Suc n) sys stream i False = Some (Inr (bs, stream')) \<and>
           chunks stream' = c\<lparr> mdat_pos := mdat_pos c + i \<rparr> # rest"
proof -
  obtain stream' where
    r: "read_chunk_data (Suc n) sys i (env n stream) = Some (Inr (bs, stream', False))"
    and c': "chunks stream' = c\<lparr> mdat_pos := mdat_pos c + i \<rparr> # rest"
    using read_chunk_data_part [OF ch dt nf len pos i rd lead] by blast
  have "length bs = unat i" using rd by (rule mem_read_length)
  then have z: "i - of_nat (length bs) = 0" by simp
  show ?thesis using r c' len z by (simp add: Read_loop_zero)
qed

lemma Read_available:
  assumes sent: "flv_header_bytes_sent p_sys = 0"
    and st: "hds_streams p_sys = stream # others"
    and ch: "chunks (env n stream) = c # rest" and dt: "data c \<noteq> None" and nf: "\<not> failed c"
    and len: "i \<noteq> 0" "unat i + 13 < 2 ^ 32"
    and pos: "mdat_pos c < mdat_len c" and i: "i < mdat_len c - mdat_pos c"
    and rd: "mem_read (data c) (mdat_data c + ucast (mdat_pos c)) (unat i) = Inr bs"
    and lead: "live p_sys \<or> (afrt_timescale (env n stream) \<noteq> 0 \<and>
                 (eof c \<or> download_leadtime (env n stream) \<le>
                           duration c div ucast (afrt_timescale (env n stream))))"
  shows "\<exists>p_sys'. Read env (Suc n) p_sys (13 + i) = Some (Inr ((flv_header, bs), p_sys'))"
proof -
  have k: "unat (flv_header_bytes_sent p_sys) = 0" using sent by simp
  obtain t where t: "send_flv_header p_sys (13 + i) False =
           Inr (take (unat t) (drop 0 flv_header), t,
                p_sys\<lparr> flv_header_bytes_sent := flv_header_bytes_sent p_sys + t \<rparr>)"
      "unat t = min (unat (13 + i)) (13 - 0)"
    using send_flv_header_read [OF k, of "13 + i"] by auto
  have "unat (13 :: 32 word) + unat i < 2 ^ LENGTH(32)" using len(2) by simp
  then have "unat (13 + i) = unat (13 :: 32 word) + unat i" by (rule unat_add_lem [THEN iffD1])
  then have "unat t = 13" using t(2) by simp
  then have t13: "t = 13" by (simp add: word_eq_iff_unsigned [where ?'a = nat])
  let ?sys1 = "p_sys\<lparr> flv_header_bytes_sent := flv_header_bytes_sent p_sys + t \<rparr>"
  have lead1: "live ?sys1 \<or> (afrt_timescale (env n stream) \<noteq> 0 \<and>
                 (eof c \<or> download_leadtime (env n stream) \<le>
                           duration c div ucast (afrt_timescale (env n stream))))"
    using lead by simp
  obtain stream' where
    l: "Read_loop env (Suc n) ?sys1 stream i False = Some (Inr (bs, stream'))"
    using Read_loop_part [where env = env and n = n and stream = stream and sys = ?sys1,
        OF ch dt nf len(1) pos i rd lead1] by blast
  show ?thesis using t(1) t13 st l by (simp add: Read_def length_flv_header del: Read_loop.simps)
qed

text \<open>
  C1. On a freshly opened filter (no header byte sent yet): a sequence of \<open>Read\<close> calls
  that asks for 13 bytes or less in all returns, for every fuel and under any
  interference of the other threads, and delivers that many bytes of
  \<open>46 4C 56 01 05 00 00 00 09 00 00 00 00\<close>; a call that asks for the header and for
  bytes that the downloaded chunk at the head of the chain holds returns the whole header
  followed by those bytes; and for any sequence of calls that return, with any sizes, the
  first 13 bytes of what the calls deliver are the first bytes of the header (all 13 of
  them once 13 bytes have been delivered, which happens as soon as the filter has a stream
  and 13 bytes have been asked for), and a call stores bytes of chunk data only when the
  header parts of the calls up to and including it make up the whole header.
\<close>

theorem flv_prefix:
  assumes "flv_header_bytes_sent p_sys = 0"
  shows "(hds_streams p_sys \<noteq> [] \<and> sum_list (map (\<lambda>c. unat (snd c)) calls) \<le> 13 \<longrightarrow>
            (\<exists>outs p_sys'. Reads fuel p_sys calls = Some (Inr (outs, p_sys')) \<and>
               delivered outs = take (sum_list (map (\<lambda>c. unat (snd c)) calls)) flv_header)) \<and>
         (\<forall>env n stream others c rest i bs.
            hds_streams p_sys = stream # others \<and> chunks (env n stream) = c # rest \<and>
            data c \<noteq> None \<and> \<not> failed c \<and> i \<noteq> 0 \<and> unat i + 13 < 2 ^ 32 \<and>
            mdat_pos c < mdat_len c \<and> i < mdat_len c - mdat_pos c \<and>
            mem_read (data c) (mdat_data c + ucast (mdat_pos c)) (unat i) = Inr bs \<and>
            (live p_sys \<or>
             (afrt_timescale (env n stream) \<noteq> 0 \<and>
              (eof c \<or> download_leadtime (env n stream) \<le>
                         duration c div ucast (afrt_timescale (env n stream))))) \<longrightarrow>
            (\<exists>p_sys'. Read env (Suc n) p_sys (13 + i) = Some (Inr ((flv_header, bs), p_sys')))) \<and>
         (\<forall>outs p_sys'. Reads fuel p_sys calls = Some (Inr (outs, p_sys')) \<longrightarrow>
            take 13 (delivered outs) = take (length (delivered outs)) flv_header \<and>
            (13 \<le> length (delivered outs) \<longrightarrow> take 13 (delivered outs) = flv_header) \<and>
            (hds_streams p_sys \<noteq> [] \<longrightarrow>
               min 13 (sum_list (map (\<lambda>c. unat (snd c)) calls)) \<le> length (delivered outs)) \<and>
            (\<forall>i<length outs. snd (outs ! i) \<noteq> [] \<longrightarrow>
               concat (map fst (take (Suc i) outs)) = flv_header)) \<and>
         flv_header = [0x46, 0x4C, 0x56, 0x01, 0x05, 0x00, 0x00, 0x00, 0x09, 0x00, 0x00, 0x00, 0x00]"
proof -
  have k: "unat (flv_header_bytes_sent p_sys) = 0" using assms(1) by simp
  have a: "\<exists>outs p_sys'. Reads fuel p_sys calls = Some (Inr (outs, p_sys')) \<and>
             delivered outs = take (sum_list (map (\<lambda>c. unat (snd c)) calls)) flv_header"
    if "hds_streams p_sys \<noteq> []" "sum_list (map (\<lambda>c. unat (snd c)) calls) \<le> 13"
    using Reads_header_only [OF k _ that(1), of calls fuel] that(2) by auto
  have b: "\<exists>p_sys'. Read env (Suc n) p_sys (13 + i) = Some (Inr ((flv_header, bs), p_sys'))"
    if "hds_streams p_sys = stream # others" "chunks (env n stream) = c # rest"
       "data c \<noteq> None" "\<not> failed c" "i \<noteq> 0" "unat i + 13 < 2 ^ 32"
       "mdat_pos c < mdat_len c" "i < mdat_len c - mdat_pos c"
       "mem_read (data c) (mdat_data c + ucast (mdat_pos c)) (unat i) = Inr bs"
       "live p_sys \<or>
          (afrt_timescale (env n stream) \<noteq> 0 \<and>
           (eof c \<or> download_leadtime (env n stream) \<le>
                      duration c div ucast (afrt_timescale (env n stream))))"
    for env n stream others c rest i bs
    using that by (intro Read_available [OF assms(1)])
  have c: "take 13 (delivered outs) = take (length (delivered outs)) flv_header \<and>
           (13 \<le> length (delivered outs) \<longrightarrow> take 13 (delivered outs) = flv_header) \<and>
           (hds_streams p_sys \<noteq> [] \<longrightarrow>
              min 13 (sum_list (map (\<lambda>c. unat (snd c)) calls)) \<le> length (delivered outs)) \<and>
           (\<forall>i<length outs. snd (outs ! i) \<noteq> [] \<longrightarrow>
              concat (map fst (take (Suc i) outs)) = flv_header)"
    if r: "Reads fuel p_sys calls = Some (Inr (outs, p_sys'))" for outs p_sys'
  proof -
    from Reads_header [OF k _ r]
    have p: "take 13 (delivered outs) = take (length (delivered outs)) flv_header"
      and l: "hds_streams p_sys \<noteq> [] \<longrightarrow>
              min 13 (sum_list (map (\<lambda>c. unat (snd c)) calls)) \<le> length (delivered outs)"
      and m: "\<forall>i<length outs. snd (outs ! i) \<noteq> [] \<longrightarrow>
              concat (map fst (take (Suc i) outs)) = flv_header"
      by auto
    have "13 \<le> length (delivered outs) \<longrightarrow> take 13 (delivered outs) = flv_header"
      using p by (simp add: length_flv_header)
    then show ?thesis using p l m by simp
  qed
  have d: "flv_header = [0x46, 0x4C, 0x56, 0x01, 0x05, 0x00, 0x00, 0x00, 0x09, 0x00, 0x00, 0x00, 0x00]"
    by (simp add: flv_header_def)
  show ?thesis using a b c d by blast
qed

text \<open>
  Two calls on the VOD session whose first fragment is downloaded, asking for 5 and for
  10 bytes: they return, and deliver the 13 header bytes and then the first two payload
  bytes.
\<close>

lemma playing_reads:
  "\<exists>outs sys'. Reads (Suc (Suc (Suc (Suc (Suc (Suc 0)))))) playing_sys
       [(\<lambda>k s. s, 5), (\<lambda>k s. s, 10)] = Some (Inr (outs, sys')) \<and>
     outs = [(take 5 flv_header, []), (drop 5 flv_header, [0xAA, 0xBB])]"
  by (simp add: playing_sys_def vod_sys_def vod_stream_def new_stream_def sample_chunk_def
      sample_fragment_def chunk_new_def Read_def send_flv_header_def flv_header_def
      read_chunk_data_def drain.simps copy_mdat_def mem_read_def Let_def generate_new_chunk_def
      frun_walk.simps srun_walk.simps)

theorem flv_prefix_witness:
  "\<exists>outs sys'. Reads (Suc (Suc (Suc (Suc (Suc (Suc 0)))))) playing_sys
       [(\<lambda>k s. s, 5), (\<lambda>k s. s, 10)] = Some (Inr (outs, sys')) \<and>
     delivered outs = flv_header @ [0xAA, 0xBB] \<and>
     take 13 (delivered outs) = flv_header"
proof -
  obtain outs sys' where
    r: "Reads (Suc (Suc (Suc (Suc (Suc (Suc 0)))))) playing_sys
          [(\<lambda>k s. s, 5), (\<lambda>k s. s, 10)] = Some (Inr (outs, sys'))" and
    o: "outs = [(take 5 flv_header, []), (drop 5 flv_header, [0xAA, 0xBB])]"
    using playing_reads by blast
  have z: "flv_header_bytes_sent playing_sys = 0"
    by (simp add: playing_sys_def vod_sys_def)
  have d: "delivered outs = flv_header @ [0xAA, 0xBB]"
    using o by (simp add: delivered_def)
  have "13 \<le> length (delivered outs) \<longrightarrow> take 13 (delivered outs) = flv_header"
    using flv_prefix [OF z, where calls = "[(\<lambda>k s. s, 5), (\<lambda>k s. s, 10)]"
        and fuel = "Suc (Suc (Suc (Suc (Suc (Suc 0)))))"] r
    by blast
  then have "take 13 (delivered outs) = flv_header"
    using d by (simp add: length_flv_header)
  then show ?thesis using r d by blast
qed

text \<open>
  C10. While fewer than 13 header bytes have been sent and the filter has a stream,
  \<open>Peek\<close> returns a pointer into the static header, at the number of bytes already
  sent, and the length 13 minus that number, whatever size is asked for and whatever the
  chain holds; it does not point into chunk data. On a filter without a stream it returns
  0 and sets no pointer.
\<close>

theorem peek_header:
  "(hds_streams p_sys \<noteq> [] \<and> flv_header_bytes_sent p_sys < 13 \<longrightarrow>
      Peek p_sys i_peek =
        (Header (unat (flv_header_bytes_sent p_sys)), 13 - flv_header_bytes_sent p_sys)) \<and>
   (hds_streams p_sys = [] \<longrightarrow> Peek p_sys i_peek = (Unset, 0))"
  by (cases "hds_streams p_sys") (simp_all add: Peek_def)

text \<open>
  On the session whose first fragment is downloaded, a peek of one byte before anything
  is read returns the whole header: 13 bytes.
\<close>

theorem peek_header_witness:
  "hds_streams playing_sys \<noteq> [] \<and> flv_header_bytes_sent playing_sys < 13 \<and>
   Peek playing_sys 1 = (Header 0, 13)"
  using peek_header [of playing_sys 1]
  by (simp add: playing_sys_def vod_sys_def)

text \<open>
  Without the condition that the filter has a stream the statement fails: on the session
  without streams no header byte has been sent, and \<open>Peek\<close> returns 0 and no pointer.
\<close>

theorem peek_no_stream:
  "flv_header_bytes_sent empty_sys < 13 \<and> Peek empty_sys 1 = (Unset, 0) \<and>
   Peek empty_sys 1 \<noteq> (Header (unat (flv_header_bytes_sent empty_sys)),
                        13 - flv_header_bytes_sent empty_sys)"
  by (simp add: empty_sys_def vod_sys_def Peek_def)

subsection \<open>The mdat locator\<close>

lemma sint_of_nat_small:
  assumes "n < 2 ^ 63"
  shows "sint (of_nat n :: 64 word) = int n"
proof -
  have "sint (of_nat n :: 64 word) = signed_take_bit 63 (int n)"
    by (simp add: signed_of_nat)
  also have "\<dots> = int n"
    using assms by (intro signed_take_bit_int_eq_self) auto
  finally show ?thesis .
qed

lemma unat_of_nat_small:
  assumes "n < 2 ^ 64"
  shows "unat (of_nat n :: 64 word) = n"
  using assms by (intro of_nat_inverse) simp_all

lemma ptr_add:
  assumes "unat (a :: 64 word) + n < 2 ^ 64"
  shows "unat (a + of_nat n) = unat a + n"
proof -
  have n: "unat (of_nat n :: 64 word) = n" using assms by (intro unat_of_nat_small) simp
  have "unat a + unat (of_nat n :: 64 word) < 2 ^ LENGTH(64)" using assms n by simp
  then have "unat (a + of_nat n) = unat a + unat (of_nat n :: 64 word)"
    by (rule unat_add_lem [THEN iffD1])
  then show ?thesis using n by simp
qed

lemma ptr_diff:
  assumes "unat (a :: 64 word) + n < 2 ^ 64"
  shows "a \<le> a + of_nat n \<and> unat (a + of_nat n - a) = n"
proof -
  have "unat (a + of_nat n) = unat a + n" using assms by (rule ptr_add)
  then have "a \<le> a + of_nat n" by (simp add: word_le_nat_alt)
  moreover have "unat (a + of_nat n - a) = n"
    using assms by (simp add: unat_of_nat_small)
  ultimately show ?thesis by simp
qed


lemma be_nat_bound4:
  assumes "length sz = 4"
  shows "be_nat sz < 2 ^ 32"
proof -
  obtain a b c d where sz: "sz = [a, b, c, d]"
    using assms by (auto simp: length_Suc_conv numeral_eq_Suc)
  have "unat a < 256" "unat b < 256" "unat c < 256" "unat d < 256"
    using unsigned_less [of a, where ?'a = nat] unsigned_less [of b, where ?'a = nat]
      unsigned_less [of c, where ?'a = nat] unsigned_less [of d, where ?'a = nat] by simp_all
  then show ?thesis unfolding sz be_nat_def by simp
qed

lemma ucast_of_nat_down: "(ucast (of_nat n :: 64 word) :: 32 word) = of_nat n"
  by (simp add: word_eq_iff_unsigned [where ?'a = nat] unsigned_ucast_eq unsigned_of_nat min_def)

lemma mem_read_at:
  assumes "unat a + length bs < 2 ^ 64" "off + k \<le> length bs"
  shows "mem_read (Some \<lparr> addr = a, bytes = bs \<rparr>) (a + of_nat off) k = Inr (take k (drop off bs))"
proof -
  have "unat a + off < 2 ^ 64" using assms by simp
  then have "a \<le> a + of_nat off \<and> unat (a + of_nat off - a) = off" by (rule ptr_diff)
  then show ?thesis using assms(2) by (simp add: mem_read_def)
qed


lemma box_bounds:
  assumes nowrap: "unat (a :: 64 word) + length bs < 2 ^ 64" and small: "length bs < 2 ^ 63"
    and room: "off + k \<le> length bs"
  shows "\<not> a + of_nat (length bs) < a + of_nat off"
    and "sint (a + of_nat (length bs) - (a + of_nat off)) = int (length bs - off)"
proof -
  have 1: "unat (a + of_nat (length bs)) = unat a + length bs" using nowrap by (rule ptr_add)
  have 2: "unat (a + of_nat off) = unat a + off" using nowrap room by (intro ptr_add) simp
  show "\<not> a + of_nat (length bs) < a + of_nat off"
    using 1 2 room by (simp add: word_less_nat_alt)
  have "a + of_nat (length bs) - (a + of_nat off) = (of_nat (length bs - off) :: 64 word)"
    using room by (simp add: of_nat_diff)
  moreover have "length bs - off < 2 ^ 63" using small by simp
  ultimately show "sint (a + of_nat (length bs) - (a + of_nat off)) = int (length bs - off)"
    by (simp add: sint_of_nat_small)
qed

lemma box_step32:
  assumes nowrap: "unat a + length bs < 2 ^ 64" and small: "length bs < 2 ^ 63"
    and room: "off + 8 \<le> length bs"
    and size: "be_nat (take 4 (drop off bs)) \<noteq> 1"
  shows "find_chunk_mdat (Suc n) (Some \<lparr> addr = a, bytes = bs \<rparr>)
           (a + of_nat off) (a + of_nat (length bs)) =
         (if take 4 (drop (off + 4) bs) = mdat_tag
          then Some (Inr (of_nat (length bs - (off + 8)), a + of_nat off + 8))
          else find_chunk_mdat n (Some \<lparr> addr = a, bytes = bs \<rparr>)
                 (a + of_nat off + of_nat (be_nat (take 4 (drop off bs))))
                 (a + of_nat (length bs)))"
proof -
  let ?m = "Some \<lparr> addr = a, bytes = bs \<rparr>"
  let ?A = "a + of_nat off" and ?E = "a + (of_nat (length bs) :: 64 word)"
  let ?sz = "take 4 (drop off bs)"
  have g: "\<not> (?E < ?A \<or> sint (?E - ?A) < 8)"
    using box_bounds [OF nowrap small room] room by simp
  have r1: "mem_read ?m ?A 4 = Inr ?sz"
    using nowrap room by (intro mem_read_at) simp_all
  have "mem_read ?m (a + of_nat (off + 4)) 4 = Inr (take 4 (drop (off + 4) bs))"
    using nowrap room by (intro mem_read_at) simp_all
  then have r2: "mem_read ?m (?A + 4) 4 = Inr (take 4 (drop (off + 4) bs))"
    by (simp add: add.assoc)
  have "length ?sz = 4" using room by simp
  then have "be_nat ?sz < 2 ^ 32" by (rule be_nat_bound4)
  then have "unat (of_nat (be_nat ?sz) :: 64 word) = be_nat ?sz"
    by (intro unat_of_nat_small) simp
  then have ne: "(of_nat (be_nat ?sz) :: 64 word) \<noteq> 1"
    using size by (metis unat_1)
  have len: "(ucast (?E - (?A + 8)) :: 32 word) = of_nat (length bs - (off + 8))"
  proof -
    have "?E - (?A + 8) = (of_nat (length bs - (off + 8)) :: 64 word)"
      using room by (simp add: of_nat_diff)
    then show ?thesis by (simp only: ucast_of_nat_down)
  qed
  show ?thesis
    using g r1 r2 ne len by (simp add: Let_def add.assoc)
qed

lemma zero_box_loops:
  assumes nowrap: "unat a + length bs < 2 ^ 64" and small: "length bs < 2 ^ 63"
    and room: "off + 8 \<le> length bs"
    and size: "be_nat (take 4 (drop off bs)) = 0"
    and tag: "take 4 (drop (off + 4) bs) \<noteq> mdat_tag"
  shows "find_chunk_mdat n (Some \<lparr> addr = a, bytes = bs \<rparr>)
           (a + of_nat off) (a + of_nat (length bs)) = None"
proof (induction n)
  case 0
  show ?case by simp
next
  case (Suc n)
  have "be_nat (take 4 (drop off bs)) \<noteq> 1" using size by simp
  from box_step32 [OF nowrap small room this, of n]
  show ?case using tag size Suc by simp
qed


lemma box_step64:
  assumes nowrap: "unat a + length bs < 2 ^ 64" and small: "length bs < 2 ^ 63"
    and room: "off + 20 \<le> length bs"
    and size: "be_nat (take 4 (drop off bs)) = 1"
  shows "find_chunk_mdat (Suc n) (Some \<lparr> addr = a, bytes = bs \<rparr>)
           (a + of_nat off) (a + of_nat (length bs)) =
         (if take 4 (drop (off + 4) bs) = mdat_tag
          then Some (Inr (of_nat (length bs - (off + 16)), a + of_nat off + 16))
          else find_chunk_mdat n (Some \<lparr> addr = a, bytes = bs \<rparr>)
                 (a + of_nat off + of_nat (be_nat (take 8 (drop (off + 8) bs))))
                 (a + of_nat (length bs)))"
proof -
  let ?m = "Some \<lparr> addr = a, bytes = bs \<rparr>"
  let ?A = "a + of_nat off" and ?E = "a + (of_nat (length bs) :: 64 word)"
  let ?sz = "take 4 (drop off bs)"
  have g: "\<not> (?E < ?A \<or> sint (?E - ?A) < 8)"
    using box_bounds [OF nowrap small room] room by simp
  have "sint (?E - (a + of_nat (off + 8))) = int (length bs - (off + 8))"
    using nowrap small room by (intro box_bounds(2) [where k = 12]) simp_all
  then have g2: "12 \<le> sint (?E - (?A + 8))"
    using room by (simp add: add.assoc)
  have r1: "mem_read ?m ?A 4 = Inr ?sz"
    using nowrap room by (intro mem_read_at) simp_all
  have "mem_read ?m (a + of_nat (off + 4)) 4 = Inr (take 4 (drop (off + 4) bs))"
    using nowrap room by (intro mem_read_at) simp_all
  then have r2: "mem_read ?m (?A + 4) 4 = Inr (take 4 (drop (off + 4) bs))"
    by (simp add: add.assoc)
  have "mem_read ?m (a + of_nat (off + 8)) 8 = Inr (take 8 (drop (off + 8) bs))"
    using nowrap room by (intro mem_read_at) simp_all
  then have r3: "mem_read ?m (?A + 8) 8 = Inr (take 8 (drop (off + 8) bs))"
    by (simp add: add.assoc)
  have len: "(ucast (?E - (?A + 8 + 8)) :: 32 word) = of_nat (length bs - (off + 16))"
  proof -
    have "?E - (?A + 8 + 8) = (of_nat (length bs - (off + 16)) :: 64 word)"
      using room by (simp add: of_nat_diff)
    then show ?thesis by (simp only: ucast_of_nat_down)
  qed
  show ?thesis
    using g g2 r1 r2 r3 len size by (simp add: Let_def add.assoc)
qed

lemma box_short64:
  assumes nowrap: "unat a + length bs < 2 ^ 64" and small: "length bs < 2 ^ 63"
    and room: "off + 8 \<le> length bs" "length bs < off + 20"
    and size: "be_nat (take 4 (drop off bs)) = 1"
  shows "find_chunk_mdat (Suc n) (Some \<lparr> addr = a, bytes = bs \<rparr>)
           (a + of_nat off) (a + of_nat (length bs)) = Some (Inr (0, 0))"
proof -
  let ?m = "Some \<lparr> addr = a, bytes = bs \<rparr>"
  let ?A = "a + of_nat off" and ?E = "a + (of_nat (length bs) :: 64 word)"
  let ?sz = "take 4 (drop off bs)"
  have g: "\<not> (?E < ?A \<or> sint (?E - ?A) < 8)"
    using box_bounds [OF nowrap small room(1)] room by simp
  have "sint (?E - (a + of_nat (off + 8))) = int (length bs - (off + 8))"
    using nowrap small room by (intro box_bounds(2) [where k = 0]) simp_all
  then have g2: "\<not> 12 \<le> sint (?E - (?A + 8))"
    using room by (simp add: add.assoc)
  have r1: "mem_read ?m ?A 4 = Inr ?sz"
    using nowrap room by (intro mem_read_at) simp_all
  show ?thesis
    using g g2 r1 size by (simp add: Let_def add.assoc)
qed

lemma box_past_end:
  assumes nowrap: "unat a + off < 2 ^ 64" and past: "length bs < off"
  shows "find_chunk_mdat (Suc n) m (a + of_nat off) (a + of_nat (length bs)) = Some (Inr (0, 0))"
proof -
  have 1: "unat (a + of_nat (length bs)) = unat a + length bs" using nowrap past by (intro ptr_add) simp
  have 2: "unat (a + of_nat off) = unat a + off" using nowrap by (rule ptr_add)
  have "a + of_nat (length bs) < a + of_nat off"
    using 1 2 past by (simp add: word_less_nat_alt)
  then show ?thesis by simp
qed

text \<open>
  C9. The locator does not examine the size field of a box beyond using it as the step to
  the next box. At a box header with at least 8 bytes left in the fragment: in the 32-bit
  form (size field other than 1) a box tagged \<open>mdat\<close> is accepted, whatever its size
  field, with the payload running from behind the header to the end of the fragment, and
  any other box is stepped over by its size field, also when that is less than 8; in the
  extended form, with at least 20 bytes left, the same holds with a 16-byte header and the
  64-bit size, also when that is less than 16. A box of size 0 that is not an mdat box is
  read again and again: the locator does not return. The locator reports failure in three
  places only: where fewer than 8 bytes are left at a header, where fewer than 12 bytes
  lie behind the first 8 of an extended-form header, and where a step has led past the
  end of the fragment. (The block holding the fragment lies within the address space and
  is shorter than \<open>2^63\<close> bytes.)
\<close>

theorem box_size_unchecked:
  assumes "unat a + length bs < 2 ^ 64" and "length bs < 2 ^ 63"
  shows "(off + 8 \<le> length bs \<and> be_nat (take 4 (drop off bs)) \<noteq> 1 \<longrightarrow>
            find_chunk_mdat (Suc n) (Some \<lparr> addr = a, bytes = bs \<rparr>)
              (a + of_nat off) (a + of_nat (length bs)) =
            (if take 4 (drop (off + 4) bs) = mdat_tag
             then Some (Inr (of_nat (length bs - (off + 8)), a + of_nat off + 8))
             else find_chunk_mdat n (Some \<lparr> addr = a, bytes = bs \<rparr>)
                    (a + of_nat off + of_nat (be_nat (take 4 (drop off bs))))
                    (a + of_nat (length bs)))) \<and>
         (off + 20 \<le> length bs \<and> be_nat (take 4 (drop off bs)) = 1 \<longrightarrow>
            find_chunk_mdat (Suc n) (Some \<lparr> addr = a, bytes = bs \<rparr>)
              (a + of_nat off) (a + of_nat (length bs)) =
            (if take 4 (drop (off + 4) bs) = mdat_tag
             then Some (Inr (of_nat (length bs - (off + 16)), a + of_nat off + 16))
             else find_chunk_mdat n (Some \<lparr> addr = a, bytes = bs \<rparr>)
                    (a + of_nat off + of_nat (be_nat (take 8 (drop (off + 8) bs))))
                    (a + of_nat (length bs)))) \<and>
         (off + 8 \<le> length bs \<and> be_nat (take 4 (drop off bs)) = 0 \<and>
          take 4 (drop (off + 4) bs) \<noteq> mdat_tag \<longrightarrow>
            (\<forall>k. find_chunk_mdat k (Some \<lparr> addr = a, bytes = bs \<rparr>)
                   (a + of_nat off) (a + of_nat (length bs)) = None)) \<and>
         (off \<le> length bs \<and> length bs < off + 8 \<longrightarrow>
            find_chunk_mdat (Suc n) (Some \<lparr> addr = a, bytes = bs \<rparr>)
              (a + of_nat off) (a + of_nat (length bs)) = Some (Inr (0, 0))) \<and>
         (off + 8 \<le> length bs \<and> length bs < off + 20 \<and> be_nat (take 4 (drop off bs)) = 1 \<longrightarrow>
            find_chunk_mdat (Suc n) (Some \<lparr> addr = a, bytes = bs \<rparr>)
              (a + of_nat off) (a + of_nat (length bs)) = Some (Inr (0, 0))) \<and>
         (length bs < off \<and> unat a + off < 2 ^ 64 \<longrightarrow>
            find_chunk_mdat (Suc n) (Some \<lparr> addr = a, bytes = bs \<rparr>)
              (a + of_nat off) (a + of_nat (length bs)) = Some (Inr (0, 0)))"
proof -
  have short: "find_chunk_mdat (Suc n) (Some \<lparr> addr = a, bytes = bs \<rparr>)
              (a + of_nat off) (a + of_nat (length bs)) = Some (Inr (0, 0))"
    if "off \<le> length bs" "length bs < off + 8"
  proof -
    have "sint (a + of_nat (length bs) - (a + of_nat off)) = int (length bs - off)"
      using assms that by (intro box_bounds(2) [where k = 0]) simp_all
    then show ?thesis using that by simp
  qed
  show ?thesis
    using assms box_step32 [of a bs off n] box_step64 [of a bs off n] zero_box_loops [of a bs off]
      short box_short64 [of a bs off n]
      box_past_end [of a off bs n "Some \<lparr> addr = a, bytes = bs \<rparr>"]
    by simp
qed

text \<open>
  At the first box of \<open>small_box_fragment\<close>, whose size field is 4, the locator goes on
  to the box at offset 4.
\<close>

theorem box_size_unchecked_witness:
  "be_nat (take 4 small_box_fragment) = 4 \<and>
   find_chunk_mdat (Suc (Suc 0)) (Some \<lparr> addr = 0x1000, bytes = small_box_fragment \<rparr>)
     0x1000 0x100F =
   find_chunk_mdat (Suc 0) (Some \<lparr> addr = 0x1000, bytes = small_box_fragment \<rparr>)
     0x1004 0x100F"
proof -
  have l: "length small_box_fragment = 15" by (simp add: small_box_fragment_def)
  have s: "be_nat (take 4 (drop 0 small_box_fragment)) = 4"
    by (simp add: small_box_fragment_def be_nat_def)
  have t: "take 4 (drop (0 + 4) small_box_fragment) \<noteq> mdat_tag"
    by (simp add: small_box_fragment_def mdat_tag_def)
  have "find_chunk_mdat (Suc (Suc 0)) (Some \<lparr> addr = 0x1000, bytes = small_box_fragment \<rparr>)
          (0x1000 + of_nat 0) (0x1000 + of_nat (length small_box_fragment)) =
        find_chunk_mdat (Suc 0) (Some \<lparr> addr = 0x1000, bytes = small_box_fragment \<rparr>)
          (0x1000 + of_nat 0 + of_nat (be_nat (take 4 (drop 0 small_box_fragment))))
          (0x1000 + of_nat (length small_box_fragment))"
    using box_size_unchecked [of "0x1000" small_box_fragment 0 "Suc 0"] s t l
    by (simp del: find_chunk_mdat.simps)
  then show ?thesis using s l by (simp del: find_chunk_mdat.simps)
qed

text \<open>
  Boxes whose size is below the size of their own header are not a failure: the locator
  steps over the first box of \<open>small_box_fragment\<close> (size field 4) and returns the
  payload of the mdat box it finds at offset 4; it accepts an mdat box whose size field
  is 4, and one in the extended form whose 64-bit size is 4.
\<close>

theorem small_box_accepted:
  "find_chunk_mdat (Suc (Suc 0)) (Some \<lparr> addr = 0x1000, bytes = small_box_fragment \<rparr>)
     0x1000 0x100F = Some (Inr (3, 0x100C)) \<and>
   find_chunk_mdat (Suc 0) (Some \<lparr> addr = 0x1000, bytes = small_mdat_fragment \<rparr>)
     0x1000 0x100B = Some (Inr (3, 0x1008)) \<and>
   find_chunk_mdat (Suc 0) (Some \<lparr> addr = 0x1000, bytes = small_ext_fragment \<rparr>)
     0x1000 0x1014 = Some (Inr (4, 0x1010))"
  by (simp add: small_box_fragment_def small_mdat_fragment_def small_ext_fragment_def
      mem_read_def be_nat_def mdat_tag_def Let_def)

subsection \<open>Failed fetches\<close>

lemma lead_loop_prefix:
  "lead_loop fuel sys s ch j t d = Some (Inr (ch', d')) \<Longrightarrow> \<exists>ext. ch' = ch @ ext"
proof (induction fuel arbitrary: ch j t d)
  case 0
  then show ?case by simp
next
  case (Suc n)
  show ?case
  proof (cases "length ch \<le> j \<or> afrt_timescale s = 0 \<or>
      \<not> (t div ucast (afrt_timescale s) < download_leadtime s \<and> \<not> eof (ch ! j))")
    case True
    then show ?thesis using Suc.prems by (auto split: if_splits)
  next
    case False
    then obtain ch1 d1 where
      g: "(if j + 1 = length ch
              then (case generate_new_chunk sys (Some (ch ! j)) s of
                      Inl f \<Rightarrow> Inl f
                    | Inr None \<Rightarrow> Inr (ch, True)
                    | Inr (Some g) \<Rightarrow> Inr (ch @ [g], True))
              else Inr (ch, d)) = Inr (ch1, d1)" and
      r: "(if j + 1 < length ch1
            then lead_loop n sys s ch1 (j + 1) (t + duration (ch1 ! (j + 1))) d1
            else Some (Inr (ch1, d1))) = Some (Inr (ch', d'))"
      using Suc.prems by (auto split: if_splits sum.splits prod.splits)
    have 1: "\<exists>e. ch1 = ch @ e"
      using g by (auto split: if_splits sum.splits option.splits)
    have 2: "\<exists>e. ch' = ch1 @ e"
      using r Suc.IH by (auto split: if_splits)
    show ?thesis using 1 2 by auto
  qed
qed

lemma drain_no_data:
  "chain r = c # rest \<Longrightarrow> data c = None \<Longrightarrow> drain sys s r = Inr r"
  by (subst drain.simps) simp

lemma read_chunk_data_stalls:
  assumes "stalled stream"
    and "read_chunk_data fuel sys n stream = Some (Inr (bs, stream', e))"
  shows "bs = [] \<and> e = False \<and> stalled stream' \<and>
         (\<exists>ext. chunks stream' = chunks stream @ ext)"
proof -
  obtain c rest where c: "chunks stream = c # rest" "data c = None" "eof c = False"
    using assms(1) by (auto simp: stalled_def split: list.splits)
  let ?r = "\<lparr> buffer = [], read_len = n, passed = [], chain = chunks stream,
             eof_flag = False, dl_flag = False, freed = 0 \<rparr>"
  have d: "drain sys stream ?r = Inr ?r"
    using c by (intro drain_no_data [of _ c rest]) simp_all
  show ?thesis
  proof (cases "live sys")
    case True
    then have "bs = [] \<and> e = False \<and> chunks stream' = chunks stream"
      using assms(2) c d by (auto simp: read_chunk_data_def)
    then show ?thesis using c by (simp add: stalled_def)
  next
    case False
    let ?s1 = "stream\<lparr> chunks := chunks stream,
                 chunks_livereadpos := cursor_after_free 0 (chunks_livereadpos stream),
                 chunks_downloadpos := cursor_after_free 0 (chunks_downloadpos stream) \<rparr>"
    obtain ch dl' where
      l: "lead_loop fuel sys ?s1 (chunks stream) 0 (duration c) False = Some (Inr (ch, dl'))"
      and o: "bs = []" "e = False" "chunks stream' = ch"
      using assms(2) c d False
      by (auto simp: read_chunk_data_def Let_def split: option.splits sum.splits)
    obtain ext where "ch = chunks stream @ ext" using lead_loop_prefix [OF l] by blast
    then show ?thesis using o c by (simp add: stalled_def)
  qed
qed

lemma Read_loop_stalls:
  assumes env: "\<And>k s. stalled s \<Longrightarrow> stalled (env k s)"
  shows "stalled stream \<Longrightarrow> i_read \<noteq> 0 \<Longrightarrow>
         Read_loop env fuel sys stream i_read False \<noteq> Some (Inr (bs, stream'))"
proof (induction fuel arbitrary: stream bs stream')
  case 0
  then show ?case by simp
next
  case (Suc n)
  show ?case
  proof
    assume a: "Read_loop env (Suc n) sys stream i_read False = Some (Inr (bs, stream'))"
    then obtain bs1 s1 e1 bs2 where
      r: "read_chunk_data (Suc n) sys i_read (env n stream) = Some (Inr (bs1, s1, e1))" and
      l: "Read_loop env n sys s1 (i_read - of_nat (length bs1)) e1 = Some (Inr (bs2, stream'))"
      using Suc.prems(2) by (auto split: option.splits sum.splits)
    have "stalled (env n stream)" using env Suc.prems(1) by simp
    from read_chunk_data_stalls [OF this r]
    have "bs1 = []" "e1 = False" "stalled s1" by simp_all
    then show False using l Suc.IH [of s1 bs2 stream'] Suc.prems(2) by simp
  qed
qed

lemma cursor_after_free_0: "cursor_after_free 0 c = c"
  by (cases c) simp_all


text \<open>
  C6. A fetch that reports more than 50 MiB: \<open>download_chunk\<close> returns \<open>NULL\<close> and stores
  the reported size, but leaves the chunk's \<open>failed\<close> flag as it was, unset for a chunk
  fetched for the first time. \<open>download_thread\<close> then takes the fetch for a success and
  calls the mdat locator on the null pointer, which reads through it.
\<close>

theorem oversize_not_failed:
  "MAX_REQUEST_SIZE < resp_size oversize_response \<and>
   download_chunk (Some oversize_response) first_chunk =
     (None, first_chunk\<lparr> data_len := 52428801 \<rparr>) \<and>
   failed (snd (download_chunk (Some oversize_response) first_chunk)) = False \<and>
   download_iteration (Suc 0) (Some oversize_response) vod_sys waiting_stream =
     Some (Inl NullDeref)"
proof -
  have 1: "download_chunk (Some oversize_response) first_chunk =
        (None, first_chunk\<lparr> data_len := 52428801 \<rparr>)"
    by (simp add: download_chunk_def oversize_response_def MAX_REQUEST_SIZE_def Let_def)
  have f: "failed first_chunk = False" by (simp add: first_chunk_def chunk_new_def)
  have 2: "download_iteration (Suc 0) (Some oversize_response) vod_sys waiting_stream =
        Some (Inl NullDeref)"
    by (simp add: download_iteration_def waiting_stream_def 1 f ptr_of_def mem_read_def)
  show ?thesis using 1 2 f by (simp add: oversize_response_def MAX_REQUEST_SIZE_def)
qed

text \<open>Whatever the chunk and the response are, an oversize fetch does not touch the flag.\<close>

lemma oversize_keeps_failed:
  "MAX_REQUEST_SIZE < resp_size r \<Longrightarrow> failed (snd (download_chunk (Some r) c)) = failed c"
  by (simp add: download_chunk_def Let_def)

text \<open>
  C4. A fetch that delivers fewer bytes than reported: \<open>download_chunk\<close> sets the chunk's
  \<open>failed\<close> flag and returns \<open>NULL\<close>; \<open>download_thread\<close> leaves the chunk's \<open>data\<close> null
  and the download cursor on the chunk. The reader does not skip the chunk: the loop of
  \<open>read_chunk_data\<close> runs only while \<open>chunk->data\<close> is not null, so the call stores
  nothing, leaves the failed chunk at the head and reports no end of stream, and a \<open>Read\<close>
  that asks for more than the header never returns.
\<close>

theorem short_fetch_stalls:
  "download_chunk (Some short_response) first_chunk =
     (None, first_chunk\<lparr> data_len := 4096, failed := True \<rparr>) \<and>
   download_iteration (Suc 0) (Some short_response) vod_sys waiting_stream =
     Some (Inr (vod_sys, short_stream)) \<and>
   chunks_downloadpos short_stream = At 0 \<and>
   failed (hd (chunks short_stream)) = True \<and> data (hd (chunks short_stream)) = None \<and>
   (\<exists>st. read_chunk_data (Suc (Suc (Suc (Suc 0)))) vod_sys 87 short_stream =
            Some (Inr ([], st, False)) \<and>
         hd (chunks st) = hd (chunks short_stream)) \<and>
   (\<forall>fuel out. Read (\<lambda>k s. s) fuel (vod_sys\<lparr> hds_streams := [short_stream] \<rparr>) 100 \<noteq>
                 Some (Inr out))"
proof -
  have 1: "download_chunk (Some short_response) first_chunk =
        (None, first_chunk\<lparr> data_len := 4096, failed := True \<rparr>)"
    by (simp add: download_chunk_def short_response_def MAX_REQUEST_SIZE_def Let_def)
  have 2: "download_iteration (Suc 0) (Some short_response) vod_sys waiting_stream =
        Some (Inr (vod_sys, short_stream))"
    by (simp add: download_iteration_def waiting_stream_def 1 short_stream_def)
  have 3: "chunks_downloadpos short_stream = At 0 \<and>
           failed (hd (chunks short_stream)) = True \<and> data (hd (chunks short_stream)) = None"
    by (simp add: short_stream_def waiting_stream_def first_chunk_def chunk_new_def)
  have st: "stalled short_stream"
    by (simp add: stalled_def short_stream_def waiting_stream_def first_chunk_def chunk_new_def)
  have 4: "\<exists>st. read_chunk_data (Suc (Suc (Suc (Suc 0)))) vod_sys 87 short_stream =
            Some (Inr ([], st, False)) \<and> hd (chunks st) = hd (chunks short_stream)"
    by (simp add: read_chunk_data_def short_stream_def waiting_stream_def first_chunk_def
        second_chunk_def chunk_new_def drain.simps vod_sys_def vod_stream_def new_stream_def
        Let_def generate_new_chunk_def frun_walk.simps srun_walk.simps)
  have 5: "Read (\<lambda>k s. s) fuel (vod_sys\<lparr> hds_streams := [short_stream] \<rparr>) 100 \<noteq> Some (Inr out)"
    for fuel out
  proof
    assume a: "Read (\<lambda>k s. s) fuel (vod_sys\<lparr> hds_streams := [short_stream] \<rparr>) 100 = Some (Inr out)"
    have h: "send_flv_header (vod_sys\<lparr> hds_streams := [short_stream] \<rparr>) 100 False =
        Inr (flv_header, 13, vod_sys\<lparr> hds_streams := [short_stream], flv_header_bytes_sent := 13 \<rparr>)"
      by (simp add: send_flv_header_def vod_sys_def flv_header_def)
    obtain bs st' where
      "Read_loop (\<lambda>k s. s) fuel
         (vod_sys\<lparr> hds_streams := [short_stream], flv_header_bytes_sent := 13 \<rparr>)
         short_stream 87 False = Some (Inr (bs, st'))"
      using a h by (auto simp: Read_def split: option.splits sum.splits)
    moreover have "Read_loop (\<lambda>k s. s) fuel
         (vod_sys\<lparr> hds_streams := [short_stream], flv_header_bytes_sent := 13 \<rparr>)
         short_stream 87 False \<noteq> Some (Inr (bs, st'))"
      using st by (intro Read_loop_stalls) simp_all
    ultimately show False by simp
  qed
  show ?thesis using 1 2 3 4 5 by blast
qed

subsection \<open>The bootstrap parser\<close>

text \<open>
  C5. The parsers do read outside the blob. \<open>parse_BootstrapData\<close> accepts a blob of 29
  bytes, steps over fixed fields up to offset 37 and calls \<open>strndup\<close> there, with the
  negative distance to \<open>data_end\<close> as the length; on the empty blob it reads the box
  length before any check; and when \<open>parse_asrt\<close> refuses a box, it reads the afrt count
  through the null pointer that \<open>parse_asrt\<close> returned.
\<close>

theorem bootstrap_reads_outside:
  "length truncated_bootstrap = 29 \<and>
   parse_BootstrapData new_stream truncated_bootstrap = Inl ReadOutside \<and>
   parse_BootstrapData new_stream [] = Inl ReadOutside \<and>
   parse_BootstrapData new_stream full_table_bootstrap = Inl NullDeref"
proof -
  have 1: "parse_BootstrapData new_stream truncated_bootstrap = Inl ReadOutside"
    by (simp add: parse_BootstrapData_def truncated_bootstrap_def U32_AT_def U64_AT_def
        blob_read_def be_nat_def abst_tag_def strndup_at_def)
  have 2: "parse_BootstrapData new_stream [] = Inl ReadOutside"
    by (simp add: parse_BootstrapData_def U32_AT_def blob_read_def)
  have 3: "parse_BootstrapData new_stream full_table_bootstrap = Inl NullDeref"
    by (simp add: parse_BootstrapData_def full_table_bootstrap_def full_asrt_def U32_AT_def
        U64_AT_def U8_AT_def blob_read_def be_nat_def abst_tag_def asrt_tag_def strndup_at_def
        memchr0_def bootstrap_tail_def bootstrap_tables_def parse_asrt_def asrt_entries_def
        new_stream_def Let_def MAX_HDS_SEGMENT_RUNS_def)
  show ?thesis using 1 2 3 by (simp add: truncated_bootstrap_def)
qed

text \<open>
  No part of the parser stores a quality modifier: the servers loop and the table parsers
  leave the field alone, and the code from the quality entries on clears it and copies a
  label only where the field is not null.
\<close>

lemma bootstrap_servers_quality:
  "bootstrap_servers blob n p s = Inr (r, s') \<Longrightarrow>
   quality_segment_modifier s' = quality_segment_modifier s"
proof (induction n arbitrary: p s)
  case 0
  then show ?case by simp
next
  case (Suc n)
  then show ?case
    by (fastforce split: if_splits sum.splits option.splits prod.splits)
qed

lemma bootstrap_quality_none:
  "bootstrap_quality blob n p s = Inr (p', s') \<Longrightarrow> quality_segment_modifier s = None \<Longrightarrow>
   quality_segment_modifier s' = None"
proof (induction n arbitrary: p s)
  case 0
  then show ?case by simp
next
  case (Suc n)
  then show ?case by (auto split: sum.splits)
qed

lemma asrt_runs_quality:
  "asrt_runs blob qf n p s = Inr (p', s') \<Longrightarrow>
   quality_segment_modifier s' = quality_segment_modifier s"
proof (induction n arbitrary: p s)
  case 0
  then show ?case by simp
next
  case (Suc n)
  then show ?case
    by (fastforce simp: Let_def split: if_splits sum.splits)
qed

lemma asrt_entries_quality:
  "asrt_entries s blob qf p = Inr (r, s') \<Longrightarrow>
   quality_segment_modifier s' = quality_segment_modifier s"
  by (auto simp: asrt_entries_def split: if_splits sum.splits dest: asrt_runs_quality)

lemma parse_asrt_quality:
  "parse_asrt s blob box = Inr (r, s') \<Longrightarrow>
   quality_segment_modifier s' = quality_segment_modifier s"
  by (auto simp: parse_asrt_def split: if_splits sum.splits option.splits
      dest: asrt_entries_quality)

lemma asrt_loop_quality:
  "asrt_loop blob n p s = Inr (r, s') \<Longrightarrow>
   quality_segment_modifier s' = quality_segment_modifier s"
proof (induction n arbitrary: p s)
  case 0
  then show ?case by simp
next
  case (Suc n)
  then show ?case
    by (fastforce split: if_splits sum.splits option.splits prod.splits dest: parse_asrt_quality)
qed

lemma afrt_runs_quality:
  "afrt_runs blob n p s = Inr (r, s') \<Longrightarrow>
   quality_segment_modifier s' = quality_segment_modifier s"
proof (induction n arbitrary: p s)
  case 0
  then show ?case by simp
next
  case (Suc n)
  then show ?case
    by (fastforce split: if_splits sum.splits prod.splits)
qed

lemma parse_afrt_quality:
  "parse_afrt s blob box = Inr (r, s') \<Longrightarrow>
   quality_segment_modifier s' = quality_segment_modifier s"
  by (auto simp: parse_afrt_def Let_def split: if_splits sum.splits option.splits
      dest: afrt_runs_quality)

lemma afrt_loop_quality:
  "afrt_loop blob n p s = Inr (r, s') \<Longrightarrow>
   quality_segment_modifier s' = quality_segment_modifier s"
proof (induction n arbitrary: p s)
  case 0
  then show ?case by simp
next
  case (Suc n)
  then show ?case
    by (fastforce split: if_splits sum.splits option.splits prod.splits dest: parse_afrt_quality)
qed

lemma bootstrap_tables_quality:
  "bootstrap_tables s blob p = Inr s' \<Longrightarrow>
   quality_segment_modifier s' = quality_segment_modifier s"
  by (auto simp: bootstrap_tables_def split: sum.splits option.splits prod.splits
      dest!: asrt_loop_quality afrt_loop_quality)

lemma bootstrap_tail_quality:
  "bootstrap_tail s blob p = Inr s' \<Longrightarrow> quality_segment_modifier s' = None"
  by (auto simp: bootstrap_tail_def Let_def split: if_splits sum.splits option.splits prod.splits
      dest!: bootstrap_quality_none bootstrap_tables_quality)

lemma parse_BootstrapData_quality:
  "parse_BootstrapData s blob = Inr s' \<Longrightarrow>
   quality_segment_modifier s' = None \<or>
   quality_segment_modifier s' = quality_segment_modifier s"
  by (auto simp: parse_BootstrapData_def Let_def
      split: if_splits sum.splits option.splits prod.splits
      dest!: bootstrap_servers_quality bootstrap_tail_quality)

text \<open>
  C8. On the well-formed bootstrap with exactly one quality label, \<open>hi\<close>, the parser runs
  to the end and fills the tables, and the stream's \<open>quality_segment_modifier\<close> is null
  afterwards: the label is not collected.
\<close>

theorem quality_label_dropped:
  "U8_AT labelled_bootstrap 39 = Inr 1 \<and>
   strndup_at labelled_bootstrap 40 = Inr [0x68, 0x69] \<and>
   (\<exists>s. parse_BootstrapData new_stream labelled_bootstrap = Inr s \<and>
        quality_segment_modifier s = None \<and>
        timescale s = 1000 \<and> afrt_timescale s = 1000 \<and>
        segment_run_count s = 1 \<and> fragment_run_count s = 1 \<and>
        segment_runs s 0 = \<lparr> first_segment = 1, fragments_per_segment = 4 \<rparr> \<and>
        fragment_runs s 0 = \<lparr> fragment_number_start = 1, fragment_duration = 2500,
                               fragment_timestamp = 0, discont = 0 \<rparr>)"
proof -
  have 1: "U8_AT labelled_bootstrap 39 = Inr 1"
    by (simp add: labelled_bootstrap_def U8_AT_def blob_read_def be_nat_def)
  have 2: "strndup_at labelled_bootstrap 40 = Inr [0x68, 0x69]"
    by (simp add: labelled_bootstrap_def strndup_at_def)
  have 3: "(case parse_BootstrapData new_stream labelled_bootstrap of
              Inl f \<Rightarrow> False
            | Inr s \<Rightarrow>
                quality_segment_modifier s = None \<and>
                timescale s = 1000 \<and> afrt_timescale s = 1000 \<and>
                segment_run_count s = 1 \<and> fragment_run_count s = 1 \<and>
                segment_runs s 0 = \<lparr> first_segment = 1, fragments_per_segment = 4 \<rparr> \<and>
                fragment_runs s 0 = \<lparr> fragment_number_start = 1, fragment_duration = 2500,
                                       fragment_timestamp = 0, discont = 0 \<rparr>)"
    by code_simp
  show ?thesis using 1 2 3 by (auto split: sum.splits)
qed

text \<open>The three bounds.\<close>

lemma servers_at_cap_kept:
  "unat (server_entry_count s) = MAX_HDS_SERVERS \<Longrightarrow>
   bootstrap_servers blob n p s = Inr (r, s') \<Longrightarrow> s' = s"
proof (induction n arbitrary: p)
  case 0
  then show ?case by simp
next
  case (Suc n)
  then show ?case
    by (auto split: if_splits sum.splits option.splits)
qed

lemma servers_at_cap_step:
  "unat (server_entry_count s) = MAX_HDS_SERVERS \<Longrightarrow> memchr0 blob p = Inr (Some z) \<Longrightarrow>
   z + 1 < int (length blob) \<Longrightarrow>
   bootstrap_servers blob (Suc n) p s = bootstrap_servers blob n (z + 1) s"
  by simp

lemma servers_count_le:
  "unat (server_entry_count s) \<le> MAX_HDS_SERVERS \<Longrightarrow>
   bootstrap_servers blob n p s = Inr (r, s') \<Longrightarrow>
   unat (server_entry_count s') \<le> MAX_HDS_SERVERS"
proof (induction n arbitrary: p s)
  case 0
  then show ?case by simp
next
  case (Suc n)
  show ?case
  proof (cases "unat (server_entry_count s) < MAX_HDS_SERVERS")
    case True
    then have "unat (server_entry_count s) + unat (1 :: 8 word) < 2 ^ LENGTH(8)"
      by (simp add: MAX_HDS_SERVERS_def)
    then have "unat (server_entry_count s + 1) = unat (server_entry_count s) + unat (1 :: 8 word)"
      by (rule unat_add_lem [THEN iffD1])
    then have le: "unat (server_entry_count s + 1) \<le> MAX_HDS_SERVERS" using True by simp
    show ?thesis
      using Suc.prems(2) True le
      by (auto split: if_splits sum.splits option.splits prod.splits dest!: Suc.IH [rotated])
  next
    case False
    then have "unat (server_entry_count s) = MAX_HDS_SERVERS" using Suc.prems(1) by simp
    then have "s' = s" using Suc.prems(2) by (rule servers_at_cap_kept)
    then show ?thesis using Suc.prems(1) by simp
  qed
qed

lemma afrt_runs_at_cap:
  "unat (fragment_run_count s) = MAX_HDS_FRAGMENT_RUNS \<Longrightarrow>
   afrt_runs blob (Suc n) p s = Inr (None, s)"
  by simp

lemma afrt_runs_count_le:
  "unat (fragment_run_count s) \<le> MAX_HDS_FRAGMENT_RUNS \<Longrightarrow>
   afrt_runs blob n p s = Inr (r, s') \<Longrightarrow>
   unat (fragment_run_count s') \<le> MAX_HDS_FRAGMENT_RUNS"
proof (induction n arbitrary: p s)
  case 0
  then show ?case by simp
next
  case (Suc n)
  show ?case
  proof (cases "unat (fragment_run_count s) < MAX_HDS_FRAGMENT_RUNS")
    case True
    then have "unat (fragment_run_count s) + unat (1 :: 32 word) < 2 ^ LENGTH(32)"
      by (simp add: MAX_HDS_FRAGMENT_RUNS_def)
    then have "unat (fragment_run_count s + 1) = unat (fragment_run_count s) + unat (1 :: 32 word)"
      by (rule unat_add_lem [THEN iffD1])
    then have le: "unat (fragment_run_count s + 1) \<le> MAX_HDS_FRAGMENT_RUNS" using True by simp
    show ?thesis
      using Suc.prems(2) True le
      by (auto split: if_splits sum.splits option.splits prod.splits dest!: Suc.IH [rotated])
  next
    case False
    then show ?thesis using Suc.prems by (auto split: if_splits)
  qed
qed

lemma asrt_entries_over:
  "U32_AT blob p = Inr count \<Longrightarrow> MAX_HDS_SEGMENT_RUNS \<le> unat count \<Longrightarrow>
   asrt_entries s blob qf p = Inr (None, s)"
  by (simp add: asrt_entries_def)

lemma parse_asrt_refused:
  "parse_asrt s blob box = Inr (None, s') \<Longrightarrow> s' = s"
  by (auto simp: parse_asrt_def asrt_entries_def split: if_splits sum.splits option.splits prod.splits)

lemma servers_below_cap_step:
  "unat (server_entry_count s) < MAX_HDS_SERVERS \<Longrightarrow> strndup_at blob p = Inr str \<Longrightarrow>
   p + int (length str) + 1 < int (length blob) \<Longrightarrow>
   bootstrap_servers blob (Suc n) p s =
   bootstrap_servers blob n (p + int (length str) + 1)
     (s\<lparr> server_entries := (server_entries s)(unat (server_entry_count s) := str),
        server_entry_count := server_entry_count s + 1 \<rparr>)"
  by simp

lemma servers_stored_kept:
  "unat (server_entry_count s) \<le> MAX_HDS_SERVERS \<Longrightarrow>
   bootstrap_servers blob n p s = Inr (r, s') \<Longrightarrow>
   unat (server_entry_count s) \<le> unat (server_entry_count s') \<and>
   (\<forall>i < unat (server_entry_count s). server_entries s' i = server_entries s i)"
proof (induction n arbitrary: p s)
  case 0
  then show ?case by simp
next
  case (Suc n)
  show ?case
  proof (cases "unat (server_entry_count s) < MAX_HDS_SERVERS")
    case True
    then have "unat (server_entry_count s) + unat (1 :: 8 word) < 2 ^ LENGTH(8)"
      by (simp add: MAX_HDS_SERVERS_def)
    then have u: "unat (server_entry_count s + 1) = unat (server_entry_count s) + unat (1 :: 8 word)"
      by (rule unat_add_lem [THEN iffD1])
    then have le: "unat (server_entry_count s + 1) \<le> MAX_HDS_SERVERS" using True by simp
    obtain str where str: "strndup_at blob p = Inr str"
      using Suc.prems(2) True by (auto split: sum.splits)
    let ?s1 = "s\<lparr> server_entries := (server_entries s)(unat (server_entry_count s) := str),
                 server_entry_count := server_entry_count s + 1 \<rparr>"
    have "s' = ?s1 \<or> (\<exists>p'. bootstrap_servers blob n p' ?s1 = Inr (r, s'))"
      using Suc.prems(2) True str by (auto split: if_splits)
    then show ?thesis
    proof
      assume "s' = ?s1"
      then show ?thesis using u by simp
    next
      assume "\<exists>p'. bootstrap_servers blob n p' ?s1 = Inr (r, s')"
      then obtain p' where r: "bootstrap_servers blob n p' ?s1 = Inr (r, s')" by blast
      have le1: "unat (server_entry_count ?s1) \<le> MAX_HDS_SERVERS" using le by simp
      from Suc.IH [OF le1 r] show ?thesis using u by auto
    qed
  next
    case False
    then have "unat (server_entry_count s) = MAX_HDS_SERVERS" using Suc.prems(1) by simp
    then have "s' = s" using Suc.prems(2) by (rule servers_at_cap_kept)
    then show ?thesis by simp
  qed
qed

lemma afrt_runs_below_cap_step:
  "16 \<le> int (length blob) - p \<Longrightarrow> unat (fragment_run_count s) < MAX_HDS_FRAGMENT_RUNS \<Longrightarrow>
   U32_AT blob p = Inr start \<Longrightarrow> U64_AT blob (p + 4) = Inr ts \<Longrightarrow>
   U32_AT blob (p + 12) = Inr dur \<Longrightarrow>
   (if dur = 0 then U8_AT blob (p + 16) = Inr d else d = 0) \<Longrightarrow>
   afrt_runs blob (Suc n) p s =
   afrt_runs blob n (if dur = 0 then p + 17 else p + 16)
     (s\<lparr> fragment_runs := (fragment_runs s)
            (unat (fragment_run_count s) :=
               \<lparr> fragment_number_start = start, fragment_duration = dur,
                 fragment_timestamp = ts, discont = d \<rparr>),
        fragment_run_count := fragment_run_count s + 1 \<rparr>)"
  by (cases "dur = 0") simp_all

lemma asrt_runs_step:
  "U32_AT blob p = Inr a \<Longrightarrow> U32_AT blob (p + 4) = Inr b \<Longrightarrow>
   asrt_runs blob True (Suc n) p s =
   asrt_runs blob True n (p + 8)
     (s\<lparr> segment_runs := (segment_runs s)
            (unat (segment_run_count s) :=
               (segment_runs s (unat (segment_run_count s)))
                 \<lparr> first_segment := a, fragments_per_segment := b \<rparr>),
        segment_run_count := segment_run_count s + 1 \<rparr>)"
  by (simp add: Let_def)

lemma asrt_runs_count:
  "asrt_runs blob qf n p s = Inr (p', s') \<Longrightarrow>
   segment_run_count s' = segment_run_count s + of_nat n \<and> p' = p + 8 * int n"
proof (induction n arbitrary: p s)
  case 0
  then show ?case by simp
next
  case (Suc n)
  obtain s2 where s2: "asrt_runs blob qf n (p + 8) (s2\<lparr> segment_run_count := segment_run_count s2 + 1 \<rparr>) = Inr (p', s')"
    and c: "segment_run_count s2 = segment_run_count s"
    using Suc.prems by (auto simp: Let_def split: if_splits sum.splits)
  from Suc.IH [OF s2] show ?case using c by simp
qed

lemma asrt_runs_returns:
  "0 \<le> p \<Longrightarrow> p + 8 * int n \<le> int (length blob) \<Longrightarrow> \<exists>p' s'. asrt_runs blob qf n p s = Inr (p', s')"
proof (induction n arbitrary: p s)
  case 0
  then show ?case by simp
next
  case (Suc n)
  obtain a where a: "U32_AT blob p = Inr a"
    using Suc.prems by (auto simp: U32_AT_def blob_read_def)
  obtain b where b: "U32_AT blob (p + 4) = Inr b"
    using Suc.prems by (auto simp: U32_AT_def blob_read_def)
  have 1: "0 \<le> p + 8" "p + 8 + 8 * int n \<le> int (length blob)" using Suc.prems by simp_all
  show ?case using a b Suc.IH [OF 1] by (cases qf) (simp_all add: Let_def)
qed

text \<open>
  Two boxes: from a count of 255, as a box of 255 entries leaves it, the two entries of
  \<open>two_runs\<close> are stored at the indexes 255 and 0, and the count is 1 afterwards. And a
  box that declares 257 entries and holds them all is refused.
\<close>

lemma segment_count_wraps:
  "(case asrt_runs two_runs True (Suc (Suc 0)) 0 (new_stream\<lparr> segment_run_count := 255 \<rparr>) of
      Inl f \<Rightarrow> False
    | Inr (p', s') \<Rightarrow> p' = 16 \<and> segment_run_count s' = 1 \<and>
        segment_runs s' 255 = \<lparr> first_segment = 7, fragments_per_segment = 1 \<rparr> \<and>
        segment_runs s' 0 = \<lparr> first_segment = 9, fragments_per_segment = 2 \<rparr>)"
  by (simp add: two_runs_def U32_AT_def blob_read_def be_nat_def new_stream_def Let_def)

lemma over_asrt_refused:
  "U32_AT over_asrt 13 = Inr 257 \<and> int (length over_asrt) - 17 = 8 * 257 \<and>
   parse_asrt new_stream over_asrt 0 = Inr (None, new_stream)"
  by (simp add: over_asrt_def parse_asrt_def asrt_entries_def U32_AT_def U8_AT_def blob_read_def
      be_nat_def asrt_tag_def new_stream_def MAX_HDS_SEGMENT_RUNS_def)

text \<open>
  C7. The three bounds work differently. Servers: below 10, an entry is stored at the
  index given by the count and the count goes up by one; the count never exceeds 10 and
  never goes down, and the entries stored stay as they are; once 10 are stored the stream
  is left as it is, and each further entry is stepped over and the loop goes on with the
  next. Fragment runs: below 10000, an entry (with its discontinuity byte when its
  duration is zero) is stored at the index given by the count; the count never exceeds
  10000; when an entry is to be read with 10000 stored, the loop returns \<open>NULL\<close> and the
  stream keeps the stored runs. Segment runs: a box that declares 256 entries or more is
  refused, \<open>parse_asrt\<close> returns \<open>NULL\<close>, and a refusing \<open>parse_asrt\<close> leaves the stream
  as it was; the entries of a box that declares fewer are all read when the blob holds
  them, each is stored at the index given by the count (when the quality of the box is
  the stream's), and the count, which has 8 bits, is the earlier count plus the number of
  entries modulo 256 afterwards: over several boxes there is no bound, the count starts
  again at 0 and the first entries are overwritten.
\<close>

theorem table_caps:
  "(unat (server_entry_count s) \<le> MAX_HDS_SERVERS \<and> bootstrap_servers blob n p s = Inr (r, s') \<longrightarrow>
      unat (server_entry_count s') \<le> MAX_HDS_SERVERS \<and>
      unat (server_entry_count s) \<le> unat (server_entry_count s') \<and>
      (\<forall>i < unat (server_entry_count s). server_entries s' i = server_entries s i)) \<and>
   (unat (server_entry_count s) < MAX_HDS_SERVERS \<and> strndup_at blob p = Inr str \<and>
    p + int (length str) + 1 < int (length blob) \<longrightarrow>
      bootstrap_servers blob (Suc n) p s =
      bootstrap_servers blob n (p + int (length str) + 1)
        (s\<lparr> server_entries := (server_entries s)(unat (server_entry_count s) := str),
           server_entry_count := server_entry_count s + 1 \<rparr>)) \<and>
   (unat (server_entry_count s) = MAX_HDS_SERVERS \<and> bootstrap_servers blob n p s = Inr (r, s') \<longrightarrow>
      s' = s) \<and>
   (unat (server_entry_count s) = MAX_HDS_SERVERS \<and> memchr0 blob p = Inr (Some z) \<and>
    z + 1 < int (length blob) \<longrightarrow>
      bootstrap_servers blob (Suc n) p s = bootstrap_servers blob n (z + 1) s) \<and>
   (unat (fragment_run_count s) \<le> MAX_HDS_FRAGMENT_RUNS \<and> afrt_runs blob n p s = Inr (r, s') \<longrightarrow>
      unat (fragment_run_count s') \<le> MAX_HDS_FRAGMENT_RUNS) \<and>
   (16 \<le> int (length blob) - p \<and> unat (fragment_run_count s) < MAX_HDS_FRAGMENT_RUNS \<and>
    U32_AT blob p = Inr start \<and> U64_AT blob (p + 4) = Inr ts \<and>
    U32_AT blob (p + 12) = Inr dur \<and>
    (if dur = 0 then U8_AT blob (p + 16) = Inr d else d = 0) \<longrightarrow>
      afrt_runs blob (Suc n) p s =
      afrt_runs blob n (if dur = 0 then p + 17 else p + 16)
        (s\<lparr> fragment_runs := (fragment_runs s)
               (unat (fragment_run_count s) :=
                  \<lparr> fragment_number_start = start, fragment_duration = dur,
                    fragment_timestamp = ts, discont = d \<rparr>),
           fragment_run_count := fragment_run_count s + 1 \<rparr>)) \<and>
   (unat (fragment_run_count s) = MAX_HDS_FRAGMENT_RUNS \<longrightarrow>
      afrt_runs blob (Suc n) p s = Inr (None, s)) \<and>
   (U32_AT blob p = Inr count \<and> MAX_HDS_SEGMENT_RUNS \<le> unat count \<longrightarrow>
      asrt_entries s blob qf p = Inr (None, s)) \<and>
   (parse_asrt s blob p = Inr (None, s') \<longrightarrow> s' = s) \<and>
   (0 \<le> p \<and> p + 8 * int n \<le> int (length blob) \<longrightarrow>
      (\<exists>p' s''. asrt_runs blob qf n p s = Inr (p', s''))) \<and>
   (asrt_runs blob qf n p s = Inr (p', s') \<longrightarrow>
      segment_run_count s' = segment_run_count s + of_nat n \<and> p' = p + 8 * int n) \<and>
   (U32_AT blob p = Inr first \<and> U32_AT blob (p + 4) = Inr per \<longrightarrow>
      asrt_runs blob True (Suc n) p s =
      asrt_runs blob True n (p + 8)
        (s\<lparr> segment_runs := (segment_runs s)
               (unat (segment_run_count s) :=
                  (segment_runs s (unat (segment_run_count s)))
                    \<lparr> first_segment := first, fragments_per_segment := per \<rparr>),
           segment_run_count := segment_run_count s + 1 \<rparr>)) \<and>
   MAX_HDS_SERVERS = 10 \<and> MAX_HDS_FRAGMENT_RUNS = 10000 \<and> MAX_HDS_SEGMENT_RUNS = 256"
proof -
  note [simp del] = bootstrap_servers.simps afrt_runs.simps asrt_runs.simps
  have 1: "unat (server_entry_count s) \<le> MAX_HDS_SERVERS \<and> bootstrap_servers blob n p s = Inr (r, s') \<longrightarrow>
      unat (server_entry_count s') \<le> MAX_HDS_SERVERS \<and>
      unat (server_entry_count s) \<le> unat (server_entry_count s') \<and>
      (\<forall>i < unat (server_entry_count s). server_entries s' i = server_entries s i)"
    using servers_count_le [of s blob n p r s'] servers_stored_kept [of s blob n p r s'] by blast
  have 2: "unat (server_entry_count s) < MAX_HDS_SERVERS \<and> strndup_at blob p = Inr str \<and>
    p + int (length str) + 1 < int (length blob) \<longrightarrow>
      bootstrap_servers blob (Suc n) p s =
      bootstrap_servers blob n (p + int (length str) + 1)
        (s\<lparr> server_entries := (server_entries s)(unat (server_entry_count s) := str),
           server_entry_count := server_entry_count s + 1 \<rparr>)"
    using servers_below_cap_step [of s blob p str n] by blast
  have 3: "unat (server_entry_count s) = MAX_HDS_SERVERS \<and> bootstrap_servers blob n p s = Inr (r, s') \<longrightarrow>
      s' = s"
    using servers_at_cap_kept [of s blob n p r s'] by blast
  have 4: "unat (server_entry_count s) = MAX_HDS_SERVERS \<and> memchr0 blob p = Inr (Some z) \<and>
    z + 1 < int (length blob) \<longrightarrow>
      bootstrap_servers blob (Suc n) p s = bootstrap_servers blob n (z + 1) s"
    using servers_at_cap_step [of s blob p z n] by blast
  have 5: "unat (fragment_run_count s) \<le> MAX_HDS_FRAGMENT_RUNS \<and> afrt_runs blob n p s = Inr (r, s') \<longrightarrow>
      unat (fragment_run_count s') \<le> MAX_HDS_FRAGMENT_RUNS"
    using afrt_runs_count_le [of s blob n p r s'] by blast
  have 6: "16 \<le> int (length blob) - p \<and> unat (fragment_run_count s) < MAX_HDS_FRAGMENT_RUNS \<and>
    U32_AT blob p = Inr start \<and> U64_AT blob (p + 4) = Inr ts \<and>
    U32_AT blob (p + 12) = Inr dur \<and>
    (if dur = 0 then U8_AT blob (p + 16) = Inr d else d = 0) \<longrightarrow>
      afrt_runs blob (Suc n) p s =
      afrt_runs blob n (if dur = 0 then p + 17 else p + 16)
        (s\<lparr> fragment_runs := (fragment_runs s)
               (unat (fragment_run_count s) :=
                  \<lparr> fragment_number_start = start, fragment_duration = dur,
                    fragment_timestamp = ts, discont = d \<rparr>),
           fragment_run_count := fragment_run_count s + 1 \<rparr>)"
    using afrt_runs_below_cap_step [of blob p s start ts dur d n] by blast
  have 7: "unat (fragment_run_count s) = MAX_HDS_FRAGMENT_RUNS \<longrightarrow>
      afrt_runs blob (Suc n) p s = Inr (None, s)"
    using afrt_runs_at_cap [of s blob n p] by blast
  have 8: "U32_AT blob p = Inr count \<and> MAX_HDS_SEGMENT_RUNS \<le> unat count \<longrightarrow>
      asrt_entries s blob qf p = Inr (None, s)"
    using asrt_entries_over [of blob p count s qf] by blast
  have 9: "parse_asrt s blob p = Inr (None, s') \<longrightarrow> s' = s"
    using parse_asrt_refused [of s blob p s'] by blast
  have 10: "0 \<le> p \<and> p + 8 * int n \<le> int (length blob) \<longrightarrow>
      (\<exists>p' s''. asrt_runs blob qf n p s = Inr (p', s''))"
    using asrt_runs_returns [of p n blob qf s] by blast
  have 11: "asrt_runs blob qf n p s = Inr (p', s') \<longrightarrow>
      segment_run_count s' = segment_run_count s + of_nat n \<and> p' = p + 8 * int n"
    using asrt_runs_count [of blob qf n p s p' s'] by blast
  have 12: "U32_AT blob p = Inr first \<and> U32_AT blob (p + 4) = Inr per \<longrightarrow>
      asrt_runs blob True (Suc n) p s =
      asrt_runs blob True n (p + 8)
        (s\<lparr> segment_runs := (segment_runs s)
               (unat (segment_run_count s) :=
                  (segment_runs s (unat (segment_run_count s)))
                    \<lparr> first_segment := first, fragments_per_segment := per \<rparr>),
           segment_run_count := segment_run_count s + 1 \<rparr>)"
    using asrt_runs_step [of blob p first per n s] by blast
  have 13: "MAX_HDS_SERVERS = 10" "MAX_HDS_FRAGMENT_RUNS = 10000" "MAX_HDS_SEGMENT_RUNS = 256"
    by (simp_all add: MAX_HDS_SERVERS_def MAX_HDS_FRAGMENT_RUNS_def MAX_HDS_SEGMENT_RUNS_def)
  show ?thesis
    apply (intro conjI)
    apply (rule 1, rule 2, rule 3, rule 4, rule 5, rule 6, rule 7, rule 8, rule 9, rule 10,
        rule 11, rule 12, rule 13(1), rule 13(2), rule 13(3))
    done
qed

text \<open>
  The first entry of \<open>server_names\<close> is stored at index 0 of the fresh stream; with 10
  servers stored it is stepped over, and the loop goes on at offset 2 either way. The two
  entries of \<open>two_runs\<close> are read, and from a count of 255 the count is 1 afterwards.
  The entries of \<open>full_asrt\<close>, 256 by their count, are refused.
\<close>

theorem table_caps_witness:
  "bootstrap_servers server_names (Suc (Suc 0)) 0 new_stream =
   bootstrap_servers server_names (Suc 0) 2
     (new_stream\<lparr> server_entries := (server_entries new_stream)(0 := [0x61]),
        server_entry_count := 1 \<rparr>) \<and>
   bootstrap_servers server_names (Suc (Suc 0)) 0 (new_stream\<lparr> server_entry_count := 10 \<rparr>) =
   bootstrap_servers server_names (Suc 0) 2 (new_stream\<lparr> server_entry_count := 10 \<rparr>) \<and>
   (\<exists>p' s'. asrt_runs two_runs True (Suc (Suc 0)) 0 (new_stream\<lparr> segment_run_count := 255 \<rparr>) =
              Inr (p', s') \<and> segment_run_count s' = 1 \<and> p' = 16) \<and>
   U32_AT full_asrt 13 = Inr 256 \<and>
   asrt_entries new_stream full_asrt True 13 = Inr (None, new_stream)"
proof -
  note below = table_caps [THEN conjunct2, THEN conjunct1, THEN mp]
  note at_cap = table_caps [THEN conjunct2, THEN conjunct2, THEN conjunct2, THEN conjunct1, THEN mp]
  note over = table_caps [where count = 256, THEN conjunct2, THEN conjunct2, THEN conjunct2, THEN conjunct2,
      THEN conjunct2, THEN conjunct2, THEN conjunct2, THEN conjunct1, THEN mp]
  note returns = table_caps [THEN conjunct2, THEN conjunct2, THEN conjunct2, THEN conjunct2,
      THEN conjunct2, THEN conjunct2, THEN conjunct2, THEN conjunct2, THEN conjunct2,
      THEN conjunct1, THEN mp]
  note counted = table_caps [THEN conjunct2, THEN conjunct2, THEN conjunct2, THEN conjunct2,
      THEN conjunct2, THEN conjunct2, THEN conjunct2, THEN conjunct2, THEN conjunct2,
      THEN conjunct2, THEN conjunct1, THEN mp]
  have m: "memchr0 server_names 0 = Inr (Some 1)"
    by (simp add: memchr0_def server_names_def)
  have d: "strndup_at server_names 0 = Inr [0x61]"
    by (simp add: strndup_at_def server_names_def)
  have l: "(1::int) + 1 < int (length server_names)" by (simp add: server_names_def)
  have l': "(0::int) + int (length [0x61 :: byte]) + 1 < int (length server_names)"
    by (simp add: server_names_def)
  have c0: "unat (server_entry_count new_stream) < MAX_HDS_SERVERS"
    by (simp add: MAX_HDS_SERVERS_def new_stream_def)
  have c: "unat (server_entry_count (new_stream\<lparr> server_entry_count := 10 \<rparr>)) = MAX_HDS_SERVERS"
    by (simp add: MAX_HDS_SERVERS_def)
  have u: "U32_AT full_asrt 13 = Inr 256"
    by (simp add: full_asrt_def U32_AT_def blob_read_def be_nat_def)
  have k: "MAX_HDS_SEGMENT_RUNS \<le> unat (256 :: 32 word)" by (simp add: MAX_HDS_SEGMENT_RUNS_def)
  have 0: "bootstrap_servers server_names (Suc (Suc 0)) 0 new_stream =
           bootstrap_servers server_names (Suc 0) (0 + int (length [0x61 :: byte]) + 1)
             (new_stream\<lparr> server_entries :=
                 (server_entries new_stream)(unat (server_entry_count new_stream) := [0x61]),
                server_entry_count := server_entry_count new_stream + 1 \<rparr>)"
    by (rule below) (intro conjI c0 d l')
  have 1: "bootstrap_servers server_names (Suc (Suc 0)) 0 (new_stream\<lparr> server_entry_count := 10 \<rparr>) =
           bootstrap_servers server_names (Suc 0) (1 + 1) (new_stream\<lparr> server_entry_count := 10 \<rparr>)"
    by (rule at_cap) (intro conjI c m l)
  have 2: "asrt_entries new_stream full_asrt True 13 = Inr (None, new_stream)"
    by (rule over) (rule conjI, rule u, rule k)
  have r: "(0::int) \<le> 0 \<and> 0 + 8 * int (Suc (Suc 0)) \<le> int (length two_runs)"
    by (simp add: two_runs_def)
  have "\<exists>p' s'. asrt_runs two_runs True (Suc (Suc 0)) 0 (new_stream\<lparr> segment_run_count := 255 \<rparr>) =
          Inr (p', s')"
    by (rule returns) (rule r)
  then obtain p' s' where
    3: "asrt_runs two_runs True (Suc (Suc 0)) 0 (new_stream\<lparr> segment_run_count := 255 \<rparr>) = Inr (p', s')"
    by blast
  have "segment_run_count s' = segment_run_count (new_stream\<lparr> segment_run_count := 255 \<rparr>) +
          of_nat (Suc (Suc 0)) \<and> p' = 0 + 8 * int (Suc (Suc 0))"
    by (rule counted) (rule 3)
  then have 4: "segment_run_count s' = 1 \<and> p' = 16" by simp
  have e: "unat (server_entry_count new_stream) = 0" "server_entry_count new_stream + 1 = 1"
    by (simp_all add: new_stream_def)
  have 5: "\<exists>p' s'. asrt_runs two_runs True (Suc (Suc 0)) 0 (new_stream\<lparr> segment_run_count := 255 \<rparr>) =
              Inr (p', s') \<and> segment_run_count s' = 1 \<and> p' = 16"
    using 3 4 by blast
  have 6: "bootstrap_servers server_names (Suc (Suc 0)) 0 new_stream =
           bootstrap_servers server_names (Suc 0) 2
             (new_stream\<lparr> server_entries := (server_entries new_stream)(0 := [0x61]),
                server_entry_count := 1 \<rparr>)"
    using 0 e by (simp del: bootstrap_servers.simps)
  have 7: "bootstrap_servers server_names (Suc (Suc 0)) 0 (new_stream\<lparr> server_entry_count := 10 \<rparr>) =
           bootstrap_servers server_names (Suc 0) 2 (new_stream\<lparr> server_entry_count := 10 \<rparr>)"
    using 1 by (simp del: bootstrap_servers.simps)
  show ?thesis
    apply (intro conjI)
    apply (rule 6, rule 7, rule 5, rule u, rule 2)
    done
qed

text \<open>
  The excess is not cut off with the entries up to the bound kept. An \<open>asrt\<close> box that
  declares 256 segment runs and holds them all is refused as a whole: \<open>parse_asrt\<close>
  returns \<open>NULL\<close> and the stream has no segment run; so is a box that declares 257. And
  over two boxes the bound does not hold the entries either: after 255 entries two more
  are stored at the indexes 255 and 0, the first entry is overwritten and the count is 1.
\<close>

theorem asrt_over_cap_rejected:
  "U32_AT full_asrt 13 = Inr 256 \<and> int (length full_asrt) - 17 = 8 * 256 \<and>
   parse_asrt new_stream full_asrt 0 = Inr (None, new_stream) \<and>
   segment_run_count new_stream = 0 \<and>
   U32_AT over_asrt 13 = Inr 257 \<and> int (length over_asrt) - 17 = 8 * 257 \<and>
   parse_asrt new_stream over_asrt 0 = Inr (None, new_stream) \<and>
   (\<exists>p' s'. asrt_runs two_runs True (Suc (Suc 0)) 0 (new_stream\<lparr> segment_run_count := 255 \<rparr>) =
              Inr (p', s') \<and>
            segment_run_count s' = 1 \<and>
            segment_runs s' 255 = \<lparr> first_segment = 7, fragments_per_segment = 1 \<rparr> \<and>
            segment_runs s' 0 = \<lparr> first_segment = 9, fragments_per_segment = 2 \<rparr>)"
proof -
  have 1: "U32_AT full_asrt 13 = Inr 256 \<and> int (length full_asrt) - 17 = 8 * 256 \<and>
           parse_asrt new_stream full_asrt 0 = Inr (None, new_stream) \<and>
           segment_run_count new_stream = 0"
    by (simp add: full_asrt_def parse_asrt_def asrt_entries_def U32_AT_def U8_AT_def blob_read_def
        be_nat_def asrt_tag_def new_stream_def MAX_HDS_SEGMENT_RUNS_def)
  have 2: "\<exists>p' s'. asrt_runs two_runs True (Suc (Suc 0)) 0 (new_stream\<lparr> segment_run_count := 255 \<rparr>) =
              Inr (p', s') \<and>
            segment_run_count s' = 1 \<and>
            segment_runs s' 255 = \<lparr> first_segment = 7, fragments_per_segment = 1 \<rparr> \<and>
            segment_runs s' 0 = \<lparr> first_segment = 9, fragments_per_segment = 2 \<rparr>"
    using segment_count_wraps by (auto split: sum.splits simp del: asrt_runs.simps)
  show ?thesis using 1 2 over_asrt_refused by blast
qed

end
